theory Spec2Isabelle
  imports Complex_Main "HOL-Library.AList"
begin

section \<open>Path model\<close>

subsection \<open>JavaScript \<open>Number(string)\<close>\<close>

text \<open>
  \<open>isIntegerGreaterEqual0\<close> converts a path segment with \<open>Number(entry)\<close>. The
  conversion is the language's \<open>StringToNumber\<close>: white space is trimmed, the empty
  string is \<open>0\<close>, the literal is a signed decimal with optional fraction and exponent,
  \<open>Infinity\<close>, or an unsigned \<open>0x\<close>/\<open>0o\<close>/\<open>0b\<close> integer, and the mathematical value
  is rounded to the nearest double (ties to even; a rounded value of \<open>2^1024\<close> or more
  is an infinity). Strings are modelled over code points
  below 256. A double is \<open>NaN\<close>, an infinity, or a rational; the sign of zero is not kept
  (\<open>Number.isInteger\<close> and \<open>>= 0\<close> do not read it).
\<close>

datatype jsnum = NaN | PosInf | NegInf | Finite rat

definition is_ws :: "char \<Rightarrow> bool" where
  "is_ws c = ((of_char c :: nat) \<in> {9, 10, 11, 12, 13, 32, 160})"

definition trim :: "string \<Rightarrow> string" where
  "trim s = rev (dropWhile is_ws (rev (dropWhile is_ws s)))"

definition digit_of :: "nat \<Rightarrow> char \<Rightarrow> nat option" where
  "digit_of b c =
     (let n = (of_char c :: nat);
          d = (if 48 \<le> n \<and> n \<le> 57 then Some (n - 48)
               else if 97 \<le> n \<and> n \<le> 102 then Some (n - 87)
               else if 65 \<le> n \<and> n \<le> 70 then Some (n - 55)
               else None)
      in case d of None \<Rightarrow> None | Some v \<Rightarrow> if v < b then Some v else None)"

fun digits_val :: "nat \<Rightarrow> nat \<Rightarrow> string \<Rightarrow> nat option" where
  "digits_val b acc [] = Some acc"
| "digits_val b acc (c # cs) =
     (case digit_of b c of None \<Rightarrow> None | Some d \<Rightarrow> digits_val b (acc * b + d) cs)"

definition is_digit :: "char \<Rightarrow> bool" where
  "is_digit c = (digit_of 10 c \<noteq> None)"

fun blen :: "nat \<Rightarrow> nat" where
  "blen n = (if n = 0 then 0 else Suc (blen (n div 2)))"

declare blen.simps [simp del]

definition pow2 :: "int \<Rightarrow> rat" where
  "pow2 e = (if 0 \<le> e then 2 ^ nat e else 1 / 2 ^ nat (- e))"

definition pow10 :: "int \<Rightarrow> rat" where
  "pow10 e = (if 0 \<le> e then 10 ^ nat e else 1 / 10 ^ nat (- e))"

definition ilog2 :: "rat \<Rightarrow> int" where
  "ilog2 a = (if 1 \<le> a then int (blen (nat \<lfloor>a\<rfloor>)) - 1
              else - int (blen (nat (\<lceil>1 / a\<rceil> - 1))))"

definition round_half_even :: "rat \<Rightarrow> int" where
  "round_half_even x =
     (let f = \<lfloor>x\<rfloor>; d = x - of_int f
      in if d < 1 / 2 then f else if 1 / 2 < d then f + 1
         else if even f then f else f + 1)"

definition round_double :: "rat \<Rightarrow> jsnum" where
  "round_double q =
     (if q = 0 then Finite 0
      else let a = \<bar>q\<bar>;
               e = max (ilog2 a - 52) (- 1074);
               r = of_int (round_half_even (a / pow2 e)) * pow2 e
           in if 1024 \<le> ilog2 r then (if 0 < q then PosInf else NegInf)
              else Finite (if 0 < q then r else - r))"

definition signed_digits :: "int \<Rightarrow> string \<Rightarrow> int option" where
  "signed_digits sg ds =
     (if ds = [] then None else map_option (\<lambda>n. sg * int n) (digits_val 10 0 ds))"

definition parse_exponent :: "string \<Rightarrow> int option" where
  "parse_exponent s =
     (case s of
        [] \<Rightarrow> Some 0
      | c # r \<Rightarrow>
          if c = CHR ''e'' \<or> c = CHR ''E'' then
            (case r of
               [] \<Rightarrow> None
             | d # r' \<Rightarrow>
                 if d = CHR ''+'' then signed_digits 1 r'
                 else if d = CHR ''-'' then signed_digits (- 1) r'
                 else signed_digits 1 r)
          else None)"

definition parse_unsigned_decimal :: "string \<Rightarrow> rat option" where
  "parse_unsigned_decimal s =
     (let ip = takeWhile is_digit s;
          r1 = dropWhile is_digit s;
          fp = (case r1 of [] \<Rightarrow> [] | c # t \<Rightarrow> if c = CHR ''.'' then takeWhile is_digit t else []);
          r2 = (case r1 of [] \<Rightarrow> [] | c # t \<Rightarrow> if c = CHR ''.'' then dropWhile is_digit t else r1)
      in if ip = [] \<and> fp = [] then None
         else case (digits_val 10 0 ip, digits_val 10 0 fp, parse_exponent r2) of
                (Some i, Some f, Some e) \<Rightarrow>
                  Some ((of_nat i + of_nat f / 10 ^ length fp) * pow10 e)
              | _ \<Rightarrow> None)"

definition parse_non_decimal :: "string \<Rightarrow> jsnum option" where
  "parse_non_decimal t =
     (case t of
        z # x # ds \<Rightarrow>
          if z = CHR ''0'' \<and> x \<in> {CHR ''x'', CHR ''X'', CHR ''o'', CHR ''O'', CHR ''b'', CHR ''B''} then
            (let b = (if x \<in> {CHR ''x'', CHR ''X''} then 16
                      else if x \<in> {CHR ''o'', CHR ''O''} then 8 else 2)
             in if ds = [] then Some NaN
                else case digits_val b 0 ds of
                       None \<Rightarrow> Some NaN
                     | Some n \<Rightarrow> Some (round_double (of_nat n)))
          else None
      | _ \<Rightarrow> None)"

definition StringToNumber :: "string \<Rightarrow> jsnum" where
  "StringToNumber s =
     (let t = trim s
      in if t = [] then Finite 0
         else case parse_non_decimal t of
                Some r \<Rightarrow> r
              | None \<Rightarrow>
                  (let neg = (hd t = CHR ''-'');
                       u = (if hd t = CHR ''+'' \<or> hd t = CHR ''-'' then tl t else t)
                   in if u = ''Infinity'' then (if neg then NegInf else PosInf)
                      else case parse_unsigned_decimal u of
                             None \<Rightarrow> NaN
                           | Some q \<Rightarrow> round_double (if neg then - q else q)))"

text \<open>\<open>Number(x)\<close> for a string or \<open>undefined\<close> (\<open>None\<close>): \<open>Number(undefined)\<close> is \<open>NaN\<close>.\<close>

definition Number :: "string option \<Rightarrow> jsnum" where
  "Number x = (case x of None \<Rightarrow> NaN | Some s \<Rightarrow> StringToNumber s)"

definition Number_isInteger :: "jsnum \<Rightarrow> bool" where
  "Number_isInteger x = (case x of Finite q \<Rightarrow> q = of_int \<lfloor>q\<rfloor> | _ \<Rightarrow> False)"

definition ge0 :: "jsnum \<Rightarrow> bool" where
  "ge0 x = (case x of Finite q \<Rightarrow> 0 \<le> q | PosInf \<Rightarrow> True | _ \<Rightarrow> False)"

subsection \<open>Paths and containment\<close>

definition ARRAY_INDEX_WILDCARD :: string where
  "ARRAY_INDEX_WILDCARD = ''*''"

text \<open>\<open>String.prototype.split('/')\<close>: always at least one piece; \<open>''\<close> gives \<open>['']\<close>.\<close>

fun split_slash :: "string \<Rightarrow> string list" where
  "split_slash [] = [[]]"
| "split_slash (c # cs) =
     (if c = CHR ''/'' then [] # split_slash cs
      else (case split_slash cs of [] \<Rightarrow> [[c]] | w # ws \<Rightarrow> (c # w) # ws))"

text \<open>\<open>path.replace(/^\//, '').split('/')\<close>: one leading slash is removed.\<close>

definition getArrayFromPath :: "string \<Rightarrow> string list" where
  "getArrayFromPath path =
     split_slash (case path of [] \<Rightarrow> [] | c # cs \<Rightarrow> if c = CHR ''/'' then cs else path)"

definition sanitizeEmptyPath :: "string list \<Rightarrow> string list" where
  "sanitizeEmptyPath path = (if length path = 1 \<and> path ! 0 = [] then [] else path)"

text \<open>\<open>xs[idx]\<close> on a JavaScript array: \<open>undefined\<close> (\<open>None\<close>) out of range.\<close>

definition js_index :: "'a list \<Rightarrow> nat \<Rightarrow> 'a option" where
  "js_index xs idx = (if idx < length xs then Some (xs ! idx) else None)"

definition entryIsIdentical :: "string \<Rightarrow> string option \<Rightarrow> bool" where
  "entryIsIdentical entry1 entry2 = (entry2 = Some entry1)"

definition isArrayIndexWildcard :: "string \<Rightarrow> bool" where
  "isArrayIndexWildcard entry = (entry = ARRAY_INDEX_WILDCARD)"

definition isIntegerGreaterEqual0 :: "string option \<Rightarrow> bool" where
  "isIntegerGreaterEqual0 entry = (Number_isInteger (Number entry) \<and> ge0 (Number entry))"

definition matchesArrayWildcard :: "string \<Rightarrow> string option \<Rightarrow> bool" where
  "matchesArrayWildcard entry1 entry2 =
     (isArrayIndexWildcard entry1 \<and> isIntegerGreaterEqual0 entry2)"

definition isPathContained :: "string list \<Rightarrow> string list \<Rightarrow> bool" where
  "isPathContained fractionPath fullPath =
     list_all (\<lambda>(entry, idx).
                 entryIsIdentical entry (js_index fullPath idx) \<or>
                 matchesArrayWildcard entry (js_index fullPath idx))
              (zip fractionPath [0..<length fractionPath])"

section \<open>Values and patch operations\<close>

text \<open>
  A normalized snapshot value. \<open>JUndefined\<close> is the hole that \<open>delete\<close> leaves in an
  array (reading it gives \<open>undefined\<close>, \<open>forEach\<close> and \<open>Object.keys\<close> skip it). An object
  is the list of its own members. What a value inherits from its prototype chain is
  given by name below (\<open>inherited_member\<close>); the inherited objects themselves, which
  are functions and prototype objects of the runtime, are not values of this type.
\<close>

datatype json =
    JUndefined
  | JNull
  | JBool bool
  | JNum rat
  | JStr string
  | JArr "json list"
  | JObj "(string \<times> json) list"

text \<open>
  \<open>BuiltinObjectReached\<close> is not an error of the program. It marks a run in which the
  exclusion walk has read an inherited member and goes on inside that built-in object
  of the runtime, where it may delete a member of the built-in object. It names the
  object reached, by its path from the global object (\<open>[''Array'']\<close> is \<open>Array\<close>,
  \<open>[''Object'', ''prototype'', ''toString'']\<close> is \<open>Object.prototype.toString\<close>), and the
  keys of the exclude path that are still to be read there. What the program does from
  there is not described by the model.
\<close>

datatype error =
    TypeError
  | RollbackError string
  | PatchApplyFailure string
  | BuiltinObjectReached "string list" "string list"

datatype op_name = Add | Remove | Replace | Move | Copy | Test | Get

record PatchOperation =
  op_name :: op_name
  op_path :: string
  op_value :: "json option"
  op_from :: "string option"

text \<open>The property key of an index: its decimal form (\<open>ToString(n)\<close>).\<close>

fun string_of_nat :: "nat \<Rightarrow> string" where
  "string_of_nat n =
     (if n < 10 then [char_of (48 + n)]
      else string_of_nat (n div 10) @ [char_of (48 + n mod 10)])"

declare string_of_nat.simps [simp del]

text \<open>
  The index that a property key names in an array or string of the given length: the
  \<open>n\<close> below the length whose decimal form is the key.
\<close>

definition array_index :: "nat \<Rightarrow> string \<Rightarrow> nat option" where
  "array_index len k = find (\<lambda>n. string_of_nat n = k) [0..<len]"

definition defined :: "json option \<Rightarrow> json option" where
  "defined r = (case r of Some JUndefined \<Rightarrow> None | _ \<Rightarrow> r)"

text \<open>
  The own property that \<open>value?.[key]\<close> finds, with \<open>None\<close> where there is none or its
  value is \<open>undefined\<close>: own members of an object, elements and \<open>length\<close> of an array,
  characters and \<open>length\<close> of a string; nothing on \<open>null\<close>, \<open>undefined\<close>, numbers and
  booleans.
\<close>

fun get_prop :: "json \<Rightarrow> string \<Rightarrow> json option" where
  "get_prop (JObj kvs) k = defined (map_of kvs k)"
| "get_prop (JArr xs) k =
     (if k = ''length'' then Some (JNum (of_nat (length xs)))
      else case array_index (length xs) k of None \<Rightarrow> None | Some n \<Rightarrow> defined (js_index xs n))"
| "get_prop (JStr s) k =
     (if k = ''length'' then Some (JNum (of_nat (length s)))
      else case array_index (length s) k of
             None \<Rightarrow> None
           | Some n \<Rightarrow> Some (JStr [s ! n]))"
| "get_prop _ k = None"

text \<open>
  \<open>delete value[key]\<close> in strict mode, for a key that \<open>get_prop\<close> found: an own member
  of an object is removed, an array element becomes a hole, and \<open>length\<close> of an array
  and every own property of a string are not configurable, so the delete throws.
  (Where the key is only inherited, \<open>delete\<close> finds no own property, removes nothing
  and does not throw; the walk below has that case.)
\<close>

fun delete_prop :: "json \<Rightarrow> string \<Rightarrow> error + json" where
  "delete_prop (JObj kvs) k = Inr (JObj (AList.delete k kvs))"
| "delete_prop (JArr xs) k =
     (if k = ''length'' then Inl TypeError
      else case array_index (length xs) k of
             None \<Rightarrow> Inr (JArr xs)
           | Some n \<Rightarrow> Inr (JArr (xs[n := JUndefined])))"
| "delete_prop (JStr s) k = Inl TypeError"
| "delete_prop v k = Inr v"

text \<open>
  The source walks into \<open>value[key]\<close> and mutates it in place; the parent sees the
  change through the shared reference. \<open>set_prop\<close> writes the changed child back.
  A child read from a string or from \<open>length\<close> is a primitive copy.
\<close>

fun set_prop :: "json \<Rightarrow> string \<Rightarrow> json \<Rightarrow> json" where
  "set_prop (JObj kvs) k c = JObj (AList.update k c kvs)"
| "set_prop (JArr xs) k c =
     (case array_index (length xs) k of None \<Rightarrow> JArr xs | Some n \<Rightarrow> JArr (xs[n := c]))"
| "set_prop v k c = v"

text \<open>
  The string-named members of the standard prototypes (ECMAScript 2024 with Annex B),
  without \<open>length\<close>, which arrays and strings have as their own. Each is a function,
  or for \<open>__proto__\<close> the prototype object, so \<open>typeof\<close> of it is never \<open>'undefined'\<close>.
\<close>

definition Object_prototype :: "string list" where
  "Object_prototype =
     [''constructor'', ''__defineGetter__'', ''__defineSetter__'', ''hasOwnProperty'',
      ''__lookupGetter__'', ''__lookupSetter__'', ''isPrototypeOf'', ''propertyIsEnumerable'',
      ''toString'', ''valueOf'', ''__proto__'', ''toLocaleString'']"

definition Array_prototype :: "string list" where
  "Array_prototype =
     [''constructor'', ''at'', ''concat'', ''copyWithin'', ''fill'', ''find'', ''findIndex'',
      ''findLast'', ''findLastIndex'', ''lastIndexOf'', ''pop'', ''push'', ''reverse'', ''shift'',
      ''unshift'', ''slice'', ''sort'', ''splice'', ''includes'', ''indexOf'', ''join'', ''keys'',
      ''entries'', ''values'', ''forEach'', ''filter'', ''flat'', ''flatMap'', ''map'', ''every'',
      ''some'', ''reduce'', ''reduceRight'', ''toLocaleString'', ''toString'', ''toReversed'',
      ''toSorted'', ''toSpliced'', ''with'']"

definition String_prototype :: "string list" where
  "String_prototype =
     [''constructor'', ''anchor'', ''at'', ''big'', ''blink'', ''bold'', ''charAt'', ''charCodeAt'',
      ''codePointAt'', ''concat'', ''endsWith'', ''fontcolor'', ''fontsize'', ''fixed'',
      ''includes'', ''indexOf'', ''isWellFormed'', ''italics'', ''lastIndexOf'', ''link'',
      ''localeCompare'', ''match'', ''matchAll'', ''normalize'', ''padEnd'', ''padStart'',
      ''repeat'', ''replace'', ''replaceAll'', ''search'', ''slice'', ''small'', ''split'',
      ''strike'', ''sub'', ''substr'', ''substring'', ''sup'', ''startsWith'', ''toString'',
      ''toWellFormed'', ''trim'', ''trimStart'', ''trimLeft'', ''trimEnd'', ''trimRight'',
      ''toLocaleLowerCase'', ''toLocaleUpperCase'', ''toLowerCase'', ''toUpperCase'', ''valueOf'']"

definition Number_prototype :: "string list" where
  "Number_prototype =
     [''constructor'', ''toExponential'', ''toFixed'', ''toPrecision'', ''toString'', ''valueOf'',
      ''toLocaleString'']"

definition Boolean_prototype :: "string list" where
  "Boolean_prototype = [''constructor'', ''toString'', ''valueOf'']"

text \<open>
  \<open>value?.[key]\<close> finds an inherited member: the key is not an own property of the
  value (an own property shadows the prototype's, also when its value is \<open>undefined\<close>)
  and the prototype chain of the value has a member of that name. Read only where
  \<open>get_prop\<close> found nothing.
\<close>

fun inherited_member :: "json \<Rightarrow> string \<Rightarrow> bool" where
  "inherited_member (JObj kvs) k = (k \<notin> fst ` set kvs \<and> k \<in> set Object_prototype)"
| "inherited_member (JArr xs) k = (k \<in> set Array_prototype \<or> k \<in> set Object_prototype)"
| "inherited_member (JStr s) k = (k \<in> set String_prototype \<or> k \<in> set Object_prototype)"
| "inherited_member (JNum n) k = (k \<in> set Number_prototype \<or> k \<in> set Object_prototype)"
| "inherited_member (JBool b) k = (k \<in> set Boolean_prototype \<or> k \<in> set Object_prototype)"
| "inherited_member JNull k = False"
| "inherited_member JUndefined k = False"

text \<open>
  The object an inherited member is: \<open>constructor\<close> is the constructor of the value's
  kind, \<open>__proto__\<close> its prototype object, any other name a function of the first
  prototype of the chain that has it.
\<close>

fun constructor_name :: "json \<Rightarrow> string" where
  "constructor_name (JArr xs) = ''Array''"
| "constructor_name (JStr s) = ''String''"
| "constructor_name (JNum n) = ''Number''"
| "constructor_name (JBool b) = ''Boolean''"
| "constructor_name _ = ''Object''"

fun prototype_members :: "json \<Rightarrow> string list" where
  "prototype_members (JArr xs) = Array_prototype"
| "prototype_members (JStr s) = String_prototype"
| "prototype_members (JNum n) = Number_prototype"
| "prototype_members (JBool b) = Boolean_prototype"
| "prototype_members _ = Object_prototype"

definition inherited_object :: "json \<Rightarrow> string \<Rightarrow> string list" where
  "inherited_object v k =
     (if k = ''constructor'' then [constructor_name v]
      else if k = ''__proto__'' then [constructor_name v, ''prototype'']
      else if k \<in> set (prototype_members v) then [constructor_name v, ''prototype'', k]
      else [''Object'', ''prototype'', k])"

text \<open>The names that some value inherits a member under.\<close>

definition names_inherited_member :: "string \<Rightarrow> bool" where
  "names_inherited_member k =
     (k \<in> set (Object_prototype @ Array_prototype @ String_prototype @ Number_prototype
                @ Boolean_prototype))"

text \<open>An exclude path none of whose segments names an inherited member.\<close>

definition own_names :: "string list \<Rightarrow> bool" where
  "own_names path = (\<forall>k \<in> set path. \<not> names_inherited_member k)"

text \<open>\<open>Object.keys(value).length\<close>; \<open>Object.keys\<close> throws on \<open>null\<close> and \<open>undefined\<close>.\<close>

fun Object_keys_length :: "json \<Rightarrow> error + nat" where
  "Object_keys_length (JObj kvs) = Inr (length (remdups (map fst kvs)))"
| "Object_keys_length (JArr xs) = Inr (length (filter (\<lambda>x. x \<noteq> JUndefined) xs))"
| "Object_keys_length (JStr s) = Inr (length s)"
| "Object_keys_length (JNum n) = Inr 0"
| "Object_keys_length (JBool b) = Inr 0"
| "Object_keys_length JNull = Inl TypeError"
| "Object_keys_length JUndefined = Inl TypeError"

fun Array_isArray :: "json \<Rightarrow> bool" where
  "Array_isArray (JArr xs) = True"
| "Array_isArray _ = False"

fun elements :: "json \<Rightarrow> json list" where
  "elements (JArr xs) = xs"
| "elements _ = []"

section \<open>Exclusion filter\<close>

text \<open>
  \<open>deepRemovePath\<close> mutates \<open>patch.value\<close> in place and returns a boolean; the model
  returns the boolean together with the pruned value, or the \<open>TypeError\<close> thrown, or
  \<open>BuiltinObjectReached\<close>.

  \<open>deepRemoveWalk segs value\<close> is the \<open>for\<close> loop and the final \<open>delete\<close>, started at
  \<open>value\<close> with the segments \<open>excludePath[i..]\<close> still to walk. Its boolean says how the
  function left: \<open>False\<close> through one of the early \<open>return true\<close>, \<open>True\<close> when it
  reached a \<open>Object.keys(patch.value)\<close> test (after the wildcard fan-out or after the
  delete). \<open>deepRemoveEach\<close> is the \<open>value.forEach\<close> of the fan-out: one call of
  \<open>deepRemovePath\<close> per element with the path \<open>'/'\<close> (the empty operation path), its
  boolean dropped.

  The reads do not ask whether a property is the value's own. At the last key an
  inherited member passes the \<open>typeof\<close> test, the \<open>delete\<close> removes nothing, and the
  function goes on to the \<open>Object.keys\<close> test. Before the last key the inherited object
  becomes \<open>value\<close> and the walk goes on inside it with the keys that are left:
  \<open>BuiltinObjectReached\<close>.
\<close>

fun deepRemoveWalk :: "string list \<Rightarrow> json \<Rightarrow> error + (bool \<times> json)"
  and deepRemoveEach :: "string list \<Rightarrow> json list \<Rightarrow> error + json list" where
  "deepRemoveWalk [] v = Inr (False, v)"
| "deepRemoveWalk [lastKey] v =
     (case get_prop v lastKey of
        None \<Rightarrow> if inherited_member v lastKey then Inr (True, v) else Inr (False, v)
      | Some c \<Rightarrow>
          (case delete_prop v lastKey of
             Inl e \<Rightarrow> Inl e
           | Inr v' \<Rightarrow> Inr (True, v')))"
| "deepRemoveWalk (k # k' # ks) v =
     (if k = ARRAY_INDEX_WILDCARD \<and> Array_isArray v then
        (case deepRemoveEach (k' # ks) (elements v) of
           Inl e \<Rightarrow> Inl e
         | Inr xs' \<Rightarrow> Inr (True, JArr xs'))
      else
        (case get_prop v k of
           None \<Rightarrow>
             if inherited_member v k
             then Inl (BuiltinObjectReached (inherited_object v k) (k' # ks))
             else Inr (False, v)
         | Some c \<Rightarrow>
             (case deepRemoveWalk (k' # ks) c of
                Inl e \<Rightarrow> Inl e
              | Inr (checked, c') \<Rightarrow> Inr (checked, set_prop v k c'))))"
| "deepRemoveEach sub [] = Inr []"
| "deepRemoveEach sub (elem # rest) =
     (case (if elem = JUndefined then Inr elem
            else case deepRemoveWalk sub elem of
                   Inl e \<Rightarrow> Inl e
                 | Inr (checked, elem') \<Rightarrow>
                     if checked then
                       (case Object_keys_length elem' of
                          Inl e \<Rightarrow> Inl e
                        | Inr n \<Rightarrow> Inr elem')
                     else Inr elem') of
        Inl e \<Rightarrow> Inl e
      | Inr elem' \<Rightarrow>
          (case deepRemoveEach sub rest of
             Inl e \<Rightarrow> Inl e
           | Inr rest' \<Rightarrow> Inr (elem' # rest')))"

definition deepRemovePath ::
  "PatchOperation \<Rightarrow> string list \<Rightarrow> error + (bool \<times> PatchOperation)" where
  "deepRemovePath patch excludePath =
     (let operationPath = sanitizeEmptyPath (getArrayFromPath (op_path patch))
      in if isPathContained operationPath excludePath then
           (case op_value patch of
              None \<Rightarrow> Inr (True, patch)
            | Some v \<Rightarrow>
                (case deepRemoveWalk
                        (drop (min (length operationPath) (length excludePath - 1)) excludePath) v of
                   Inl e \<Rightarrow> Inl e
                 | Inr (checked, v') \<Rightarrow>
                     if checked then
                       (case Object_keys_length v' of
                          Inl e \<Rightarrow> Inl e
                        | Inr n \<Rightarrow> Inr (n \<noteq> 0, patch\<lparr>op_value := Some v'\<rparr>))
                     else Inr (True, patch\<lparr>op_value := Some v'\<rparr>)))
         else Inr (True, patch))"

text \<open>
  \<open>options.excludes.every(exclude => deepRemovePath(op, exclude))\<close>: stops at the first
  \<open>false\<close>; each call sees the value as the calls before it left it.
\<close>

fun deepRemoveEvery ::
  "string list list \<Rightarrow> PatchOperation \<Rightarrow> error + (bool \<times> PatchOperation)" where
  "deepRemoveEvery [] patch = Inr (True, patch)"
| "deepRemoveEvery (exclude # rest) patch =
     (case deepRemovePath patch exclude of
        Inl e \<Rightarrow> Inl e
      | Inr (keep, patch') \<Rightarrow>
          if keep then deepRemoveEvery rest patch' else Inr (False, patch'))"

text \<open>The predicate of \<open>ops.filter\<close> in \<open>createPatch\<close>, with the operation as pruned.\<close>

definition keepOperation ::
  "string list list \<Rightarrow> PatchOperation \<Rightarrow> error + (bool \<times> PatchOperation)" where
  "keepOperation excludes patch =
     (let pathArray = getArrayFromPath (op_path patch)
      in if list_ex (\<lambda>exclude. isPathContained exclude pathArray) excludes
         then Inr (False, patch)
         else deepRemoveEvery excludes patch)"

fun filterOperations ::
  "string list list \<Rightarrow> PatchOperation list \<Rightarrow> error + PatchOperation list" where
  "filterOperations excludes [] = Inr []"
| "filterOperations excludes (patch # ops) =
     (case keepOperation excludes patch of
        Inl e \<Rightarrow> Inl e
      | Inr (keep, patch') \<Rightarrow>
          (case filterOperations excludes ops of
             Inl e \<Rightarrow> Inl e
           | Inr ops' \<Rightarrow> Inr (if keep then patch' # ops' else ops')))"

text \<open>\<open>if (options.excludes.length > 0) ops = ops.filter(...)\<close>.\<close>

definition excludeOperations ::
  "string list list \<Rightarrow> PatchOperation list \<Rightarrow> error + PatchOperation list" where
  "excludeOperations excludes ops =
     (if length excludes > 0 then filterOperations excludes ops else Inr ops)"

section \<open>Change records\<close>

type_synonym obj = "(string \<times> json) list"

text \<open>
  The data of a patch document as \<open>createPatch\<close> assembles it (\<open>ops\<close> and \<open>ref\<close>; the
  date and the configured includes are not read by anything below), and a stored patch
  document, which also has its \<open>_id\<close> (as \<open>_id.toString()\<close>).
\<close>

record PatchDataInput =
  ops :: "PatchOperation list"
  ref :: string

record PatchData = PatchDataInput +
  patch_id :: string

section \<open>Rollback\<close>

text \<open>\<open>_.dropRightWhile\<close>: drops elements from the end while the predicate holds.\<close>

definition dropRightWhile :: "('a \<Rightarrow> bool) \<Rightarrow> 'a list \<Rightarrow> 'a list" where
  "dropRightWhile P xs = rev (dropWhile P (rev xs))"

text \<open>
  \<open>apply.forEach(patch => jsonpatch.applyPatch(state, patch.ops, true))\<close>. The patch
  library is not part of the repository: \<open>applyPatch state ops\<close> stands for the content
  of the object \<open>state\<close> after the call, or the error the call throws; a throw inside
  the promise executor rejects the rollback.
\<close>

fun applyAll ::
  "(obj \<Rightarrow> PatchOperation list \<Rightarrow> error + obj) \<Rightarrow> obj \<Rightarrow> PatchData list \<Rightarrow> error + obj" where
  "applyAll applyPatch state [] = Inr state"
| "applyAll applyPatch state (patch # rest) =
     (case applyPatch state (ops patch) of
        Inl e \<Rightarrow> Inl e
      | Inr state' \<Rightarrow> applyAll applyPatch state' rest)"

text \<open>The two rejections and the replay of \<open>rollback\<close>, up to the value of \<open>state\<close>.\<close>

definition rollbackState ::
  "(obj \<Rightarrow> PatchOperation list \<Rightarrow> error + obj) \<Rightarrow> PatchData list \<Rightarrow> string \<Rightarrow> error + obj" where
  "rollbackState applyPatch patches patchId =
     (let patchIds = map patch_id patches
      in if patchId \<notin> set patchIds then Inl (RollbackError ''patch doesn't exist'')
         else let apply = dropRightWhile (\<lambda>patch. patch_id patch \<noteq> patchId) patches
              in if length patches = length apply
                 then Inl (RollbackError ''rollback to latest patch'')
                 else applyAll applyPatch [] apply)"

text \<open>
  \<open>_.merge(object, source)\<close> at the top level: every key of \<open>source\<close>, in order, is
  written into \<open>object\<close>. A source value that is an array or an object is merged with
  the destination's value by the library's recursive step (\<open>mergeDeep\<close>, a parameter:
  it gets the destination's value, if any, and the source value); any other source value
  is assigned as it is, except that \<open>undefined\<close> does not replace an existing key.
\<close>

fun isObject :: "json \<Rightarrow> bool" where
  "isObject (JArr xs) = True"
| "isObject (JObj kvs) = True"
| "isObject _ = False"

definition assignMergeValue :: "obj \<Rightarrow> string \<Rightarrow> json \<Rightarrow> obj" where
  "assignMergeValue object key v =
     (if v = JUndefined \<and> key \<in> fst ` set object then object
      else AList.update key v object)"

definition merge :: "(json option \<Rightarrow> json \<Rightarrow> json) \<Rightarrow> obj \<Rightarrow> obj \<Rightarrow> obj" where
  "merge mergeDeep object source =
     foldl (\<lambda>acc (key, srcValue).
              if isObject srcValue
              then assignMergeValue acc key (mergeDeep (map_of acc key) srcValue)
              else assignMergeValue acc key srcValue)
           object (AList.clearjunk source)"

text \<open>
  \<open>rollback\<close> without the final save: the document after \<open>this.set(merge(data, state))\<close>
  and no error, or the unchanged document and the rejection. \<open>setDoc\<close> stands for the
  document's \<open>set\<close>.
\<close>

definition rollback ::
  "(obj \<Rightarrow> PatchOperation list \<Rightarrow> error + obj) \<Rightarrow> (json option \<Rightarrow> json \<Rightarrow> json) \<Rightarrow>
   ('d \<Rightarrow> obj \<Rightarrow> 'd) \<Rightarrow> 'd \<Rightarrow> PatchData list \<Rightarrow> string \<Rightarrow> obj \<Rightarrow> 'd \<times> error option" where
  "rollback applyPatch mergeDeep setDoc doc patches patchId data =
     (case rollbackState applyPatch patches patchId of
        Inl e \<Rightarrow> (doc, Some e)
      | Inr state \<Rightarrow> (setDoc doc (merge mergeDeep data state), None))"

text \<open>
  A fragment of the patch library, for concrete histories: \<open>add\<close>, \<open>replace\<close> and
  \<open>remove\<close> with a one-segment path \<open>/key\<close> into an object, validation on (\<open>replace\<close> and
  \<open>remove\<close> of a missing key and a missing value are errors). Operations outside the
  fragment are not described by it and reported as such.
\<close>

definition plain_key :: "string \<Rightarrow> string option" where
  "plain_key path =
     (case path of
        [] \<Rightarrow> None
      | c # key \<Rightarrow>
          if c = CHR ''/'' \<and> key \<noteq> [] \<and> CHR ''/'' \<notin> set key \<and> CHR ''~'' \<notin> set key
             \<and> key \<noteq> ''__proto__''
          then Some key else None)"

definition applyOperationFlat :: "obj \<Rightarrow> PatchOperation \<Rightarrow> error + obj" where
  "applyOperationFlat document operation =
     (case plain_key (op_path operation) of
        None \<Rightarrow> Inl (PatchApplyFailure ''outside the fragment'')
      | Some key \<Rightarrow>
          (case (op_name operation, op_value operation) of
             (Add, Some v) \<Rightarrow> Inr (AList.update key v document)
           | (Add, None) \<Rightarrow> Inl (PatchApplyFailure ''OPERATION_VALUE_REQUIRED'')
           | (Replace, Some v) \<Rightarrow>
               if key \<in> fst ` set document then Inr (AList.update key v document)
               else Inl (PatchApplyFailure ''OPERATION_PATH_UNRESOLVABLE'')
           | (Replace, None) \<Rightarrow> Inl (PatchApplyFailure ''OPERATION_VALUE_REQUIRED'')
           | (Remove, _) \<Rightarrow>
               if key \<in> fst ` set document then Inr (AList.delete key document)
               else Inl (PatchApplyFailure ''OPERATION_PATH_UNRESOLVABLE'')
           | _ \<Rightarrow> Inl (PatchApplyFailure ''outside the fragment'')))"

text \<open>
  The library applies a patch operation by operation, each to the document the
  operation before it left, and stops at the first error.
\<close>

fun applyOperations ::
  "(obj \<Rightarrow> PatchOperation \<Rightarrow> error + obj) \<Rightarrow> obj \<Rightarrow> PatchOperation list \<Rightarrow> error + obj" where
  "applyOperations applyOperation document [] = Inr document"
| "applyOperations applyOperation document (operation # rest) =
     (case applyOperation document operation of
        Inl e \<Rightarrow> Inl e
      | Inr document' \<Rightarrow> applyOperations applyOperation document' rest)"

definition applyPatchFlat :: "obj \<Rightarrow> PatchOperation list \<Rightarrow> error + obj" where
  "applyPatchFlat = applyOperations applyOperationFlat"

section \<open>Change capture around conditional updates\<close>

text \<open>
  A stored document as the hooks read it: its \<open>_id\<close> and its data view
  \<open>toJSON(doc.data())\<close>.
\<close>

record StoredDoc =
  doc_id :: string
  doc_data :: json

text \<open>
  The query object the hooks run on (\<open>this\<close>): the match conditions, the update
  expression, and what the \<open>pre\<close> hook captured.
\<close>

record UpdateQueryContext =
  conditions :: obj
  update :: "obj option"
  original :: "json option"
  originalId :: "string option"
  originalIds :: "string list option"
  originals :: "json list option"

text \<open>
  The result handed to the \<open>post\<close> hook, read as
  \<open>{ lastErrorObject?: { n }, upsertedCount? } | null\<close>: \<open>None\<close> is \<open>null\<close>, a field is
  \<open>None\<close> where the result does not have it. The results the hooks are handed:
  \<open>updateOne\<close> and \<open>updateMany\<close> resolve to the driver's \<open>UpdateResult\<close>
  (\<open>matchedCount\<close>, \<open>modifiedCount\<close>, \<open>upsertedCount\<close>, \<open>upsertedId\<close>, no
  \<open>lastErrorObject\<close>); \<open>findOneAndUpdate\<close> resolves to the document or \<open>null\<close>, or, when
  the caller asks for the raw result, to a \<open>ModifyResult\<close> (\<open>lastErrorObject\<close>, \<open>value\<close>,
  \<open>ok\<close>, no \<open>upsertedCount\<close>).
\<close>

record ModifyResult =
  lastErrorObject_n :: "int option"
  upsertedCount :: "int option"

text \<open>What a \<open>post\<close> hook did: the lookups it sent to the store and the records it created.\<close>

record Effects =
  lookups :: "json list"
  created :: "PatchDataInput list"

fun truthy :: "json \<Rightarrow> bool" where
  "truthy JUndefined = False"
| "truthy JNull = False"
| "truthy (JBool b) = b"
| "truthy (JNum n) = (n \<noteq> 0)"
| "truthy (JStr s) = (s \<noteq> [])"
| "truthy _ = True"

text \<open>The own enumerable properties \<open>Object.assign\<close> copies from a source.\<close>

fun own_entries :: "json \<Rightarrow> obj" where
  "own_entries (JObj kvs) = AList.clearjunk kvs"
| "own_entries (JArr xs) =
     filter (\<lambda>kv. snd kv \<noteq> JUndefined) (zip (map string_of_nat [0..<length xs]) xs)"
| "own_entries (JStr s) = zip (map string_of_nat [0..<length s]) (map (\<lambda>c. JStr [c]) s)"
| "own_entries _ = []"

definition Object_assign :: "obj \<Rightarrow> obj \<Rightarrow> obj" where
  "Object_assign target source = foldl (\<lambda>acc (k, v). AList.update k v acc) target source"

definition mergeQueryConditionsWithUpdate :: "obj \<Rightarrow> obj option \<Rightarrow> obj" where
  "mergeQueryConditionsWithUpdate c u =
     (let upd = (case u of
                   None \<Rightarrow> []
                 | Some u' \<Rightarrow>
                     (case map_of u' ''$set'' of
                        None \<Rightarrow> own_entries (JObj u')
                      | Some s \<Rightarrow> if truthy s then own_entries s else own_entries (JObj u')));
          merged = Object_assign (Object_assign [] (own_entries (JObj c))) upd
      in filter (\<lambda>kv. CHR ''$'' \<notin> set (fst kv)) merged)"

text \<open>
  \<open>createPatch\<close> up to the record it hands to \<open>patches.create\<close>: the diff of the prior
  snapshot (\<open>{}\<close> when there is none) against the data view, the exclusion filter, and
  no record when no operation is left. \<open>compare\<close> stands for the patch library's diff.
\<close>

definition createPatch ::
  "(json \<Rightarrow> json \<Rightarrow> PatchOperation list) \<Rightarrow> string list list \<Rightarrow> json option \<Rightarrow> StoredDoc \<Rightarrow>
   error + PatchDataInput list" where
  "createPatch compare excludes orig document =
     (case excludeOperations excludes
             (compare (case orig of None \<Rightarrow> JObj [] | Some snap \<Rightarrow> snap) (doc_data document)) of
        Inl e \<Rightarrow> Inl e
      | Inr ops' \<Rightarrow>
          if ops' = [] then Inr []
          else Inr [\<lparr>ops = ops', ref = doc_id document\<rparr>])"

definition untouched :: "ModifyResult option \<Rightarrow> bool" where
  "untouched result =
     (case result of
        None \<Rightarrow> False
      | Some r \<Rightarrow> lastErrorObject_n r = Some 0 \<and> upsertedCount r = Some 0)"

definition preUpdateOne ::
  "(json \<Rightarrow> StoredDoc option) \<Rightarrow> UpdateQueryContext \<Rightarrow> UpdateQueryContext" where
  "preUpdateOne findOne this =
     (case findOne (JObj (conditions this)) of
        None \<Rightarrow> this
      | Some orig \<Rightarrow> this\<lparr>originalId := Some (doc_id orig), original := Some (doc_data orig)\<rparr>)"

text \<open>The local \<open>conditions\<close> of \<open>postUpdateOne\<close>: what the after-side lookup asks for.\<close>

definition lookupConditionsOne :: "UpdateQueryContext \<Rightarrow> json" where
  "lookupConditionsOne this =
     (case originalId this of
        Some i \<Rightarrow> JObj [(''_id'', JObj [(''$eq'', JStr i)])]
      | None \<Rightarrow> JObj (mergeQueryConditionsWithUpdate (conditions this) (update this)))"

definition postUpdateOne ::
  "(json \<Rightarrow> json \<Rightarrow> PatchOperation list) \<Rightarrow> string list list \<Rightarrow> (json \<Rightarrow> StoredDoc option) \<Rightarrow>
   UpdateQueryContext \<Rightarrow> ModifyResult option \<Rightarrow> error + Effects" where
  "postUpdateOne compare excludes findOne this result =
     (if untouched result then Inr \<lparr>lookups = [], created = []\<rparr>
      else
        let conds = lookupConditionsOne this
        in case findOne conds of
             None \<Rightarrow> Inr \<lparr>lookups = [conds], created = []\<rparr>
           | Some doc \<Rightarrow>
               (case createPatch compare excludes (original this) doc of
                  Inl e \<Rightarrow> Inl e
                | Inr rs \<Rightarrow> Inr \<lparr>lookups = [conds], created = rs\<rparr>))"

definition preUpdateMany ::
  "(json \<Rightarrow> StoredDoc list) \<Rightarrow> UpdateQueryContext \<Rightarrow> UpdateQueryContext" where
  "preUpdateMany findMany this =
     (let origs = findMany (JObj (conditions this))
      in this\<lparr>originalIds := Some (map doc_id origs), originals := Some (map doc_data origs)\<rparr>)"

text \<open>
  \<open>docs.map((doc, i) => ...)\<close>: document \<open>i\<close> gets \<open>this._originals?.[i]\<close> as its prior
  snapshot and goes through \<open>createPatch\<close>.
\<close>

fun createPatches ::
  "(json \<Rightarrow> json \<Rightarrow> PatchOperation list) \<Rightarrow> string list list \<Rightarrow> json list option \<Rightarrow>
   (StoredDoc \<times> nat) list \<Rightarrow> error + PatchDataInput list" where
  "createPatches compare excludes origs [] = Inr []"
| "createPatches compare excludes origs ((doc, i) # rest) =
     (case createPatch compare excludes
             (case origs of None \<Rightarrow> None | Some os \<Rightarrow> defined (js_index os i)) doc of
        Inl e \<Rightarrow> Inl e
      | Inr rs \<Rightarrow>
          (case createPatches compare excludes origs rest of
             Inl e \<Rightarrow> Inl e
           | Inr rs' \<Rightarrow> Inr (rs @ rs')))"

text \<open>The local \<open>conditions\<close> of \<open>postUpdateMany\<close>.\<close>

definition lookupConditionsMany :: "UpdateQueryContext \<Rightarrow> json" where
  "lookupConditionsMany this =
     (case originalIds this of
        None \<Rightarrow> JObj (mergeQueryConditionsWithUpdate (conditions this) (update this))
      | Some ids \<Rightarrow>
          if length ids > 0 then JObj [(''_id'', JObj [(''$in'', JArr (map JStr ids))])]
          else JObj (mergeQueryConditionsWithUpdate (conditions this) (update this)))"

definition postUpdateMany ::
  "(json \<Rightarrow> json \<Rightarrow> PatchOperation list) \<Rightarrow> string list list \<Rightarrow> (json \<Rightarrow> StoredDoc list) \<Rightarrow>
   UpdateQueryContext \<Rightarrow> ModifyResult option \<Rightarrow> error + Effects" where
  "postUpdateMany compare excludes findMany this result =
     (if untouched result then Inr \<lparr>lookups = [], created = []\<rparr>
      else
        let conds = lookupConditionsMany this;
            docs = findMany conds
        in case createPatches compare excludes (originals this) (zip docs [0..<length docs]) of
             Inl e \<Rightarrow> Inl e
           | Inr rs \<Rightarrow> Inr \<lparr>lookups = [conds], created = rs\<rparr>)"




text \<open>
  A fragment of the patch library's \<open>compare\<close>, for concrete documents: two objects
  whose members are scalars and whose keys need no escaping (no \<open>/\<close>, no \<open>~\<close>). The
  old keys are visited from the last to the first
  (\<open>replace\<close> where the value differs, \<open>remove\<close> where the key is gone), then the keys
  that are new get an \<open>add\<close>, in the order of the new object.
\<close>

definition compareFlat :: "json \<Rightarrow> json \<Rightarrow> PatchOperation list" where
  "compareFlat mirror document =
     (case (mirror, document) of
        (JObj old, JObj new) \<Rightarrow>
          concat (map (\<lambda>(k, v).
                         case map_of new k of
                           None \<Rightarrow> [\<lparr>op_name = Remove, op_path = CHR ''/'' # k,
                                     op_value = None, op_from = None\<rparr>]
                         | Some v' \<Rightarrow>
                             if v = v' then []
                             else [\<lparr>op_name = Replace, op_path = CHR ''/'' # k,
                                    op_value = Some v', op_from = None\<rparr>])
                      (rev old))
          @ concat (map (\<lambda>(k, v').
                           if k \<in> fst ` set old then []
                           else [\<lparr>op_name = Add, op_path = CHR ''/'' # k,
                                  op_value = Some v', op_from = None\<rparr>])
                        new)
      | _ \<Rightarrow> [])"

text \<open>
  The claim about the wildcard exclude, in its own words: an element with the \<open>hidden\<close>
  key of its \<open>property\<close> removed, where that key is set; any other element as it is.
\<close>

definition hideProperty :: "json \<Rightarrow> json" where
  "hideProperty elem =
     (case elem of
        JObj kvs \<Rightarrow>
          (case map_of kvs ''property'' of
             Some (JObj p) \<Rightarrow>
               if defined (map_of p ''hidden'') = None then elem
               else JObj (AList.update ''property'' (JObj (AList.delete ''hidden'' p)) kvs)
           | _ \<Rightarrow> elem)
      | _ \<Rightarrow> elem)"

section \<open>Concrete inputs\<close>

text \<open>
  The wildcard exclude of the tests, and an \<open>add\<close> of an array: at the array's own path
  and, as the diff of a new document has it, inside the object that holds the array.
\<close>

definition hidden_pattern :: "string list" where
  "hidden_pattern = getArrayFromPath ''/object/array/*/property/hidden''"

definition array_op :: "json list \<Rightarrow> PatchOperation" where
  "array_op es = \<lparr>op_name = Add, op_path = ''/object/array'', op_value = Some (JArr es), op_from = None\<rparr>"

definition object_op :: "obj \<Rightarrow> PatchOperation" where
  "object_op kvs = \<lparr>op_name = Add, op_path = ''/object'', op_value = Some (JObj kvs), op_from = None\<rparr>"

definition elem_only_hidden :: json where
  "elem_only_hidden = JObj [(''property'', JObj [(''hidden'', JStr ''h'')])]"

definition elem_no_hidden :: json where
  "elem_no_hidden = JObj [(''property'', JObj [(''shown'', JStr ''s'')])]"

definition elem_mixed :: json where
  "elem_mixed = JObj [(''name'', JStr ''n''), (''property'', JObj [(''hidden'', JStr ''h''), (''shown'', JStr ''s'')])]"


definition example_op :: "op_name \<Rightarrow> string \<Rightarrow> json \<Rightarrow> PatchOperation" where
  "example_op n p v = \<lparr>op_name = n, op_path = p, op_value = Some v, op_from = None\<rparr>"

text \<open>The history of the rollback tests: a comment saved three times.\<close>

definition example_history :: "PatchData list" where
  "example_history =
     [\<lparr>ops = [example_op Add ''/text'' (JStr ''comm 1'')], ref = ''doc'', patch_id = ''p1''\<rparr>,
      \<lparr>ops = [example_op Replace ''/text'' (JStr ''comm 2'')], ref = ''doc'', patch_id = ''p2''\<rparr>,
      \<lparr>ops = [example_op Replace ''/text'' (JStr ''comm 3'')], ref = ''doc'', patch_id = ''p3''\<rparr>]"

text \<open>
  A batch update that adds a flag, with two documents captured before it and the first
  of them gone when the hook looks the documents up again.
\<close>

definition docA :: StoredDoc where
  "docA = \<lparr>doc_id = ''A'', doc_data = JObj [(''title'', JStr ''a'')]\<rparr>"

definition docB :: StoredDoc where
  "docB = \<lparr>doc_id = ''B'', doc_data = JObj [(''title'', JStr ''b'')]\<rparr>"

definition docB_after :: StoredDoc where
  "docB_after = \<lparr>doc_id = ''B'', doc_data = JObj [(''title'', JStr ''b''), (''flag'', JBool True)]\<rparr>"

definition batch_query :: UpdateQueryContext where
  "batch_query = \<lparr>conditions = [], update = Some [(''flag'', JBool True)],
     original = None, originalId = None, originalIds = None, originals = None\<rparr>"


text \<open>
  The update of the test \<open>update with multi\<close>: it asks for the title \<open>foo_bar\<close>, which
  no document has, and sets the title \<open>bar_foo\<close>, which the one stored document already
  has. The stores answer a lookup by title; the results are what the store hands back
  when nothing matched and nothing was inserted.
\<close>

definition bar_foo_doc :: StoredDoc where
  "bar_foo_doc = \<lparr>doc_id = ''A'', doc_data = JObj [(''title'', JStr ''bar_foo'')]\<rparr>"

definition bar_foo_findMany :: "json \<Rightarrow> StoredDoc list" where
  "bar_foo_findMany c = (if c = JObj [(''title'', JStr ''bar_foo'')] then [bar_foo_doc] else [])"

definition bar_foo_findOne :: "json \<Rightarrow> StoredDoc option" where
  "bar_foo_findOne c = (if c = JObj [(''title'', JStr ''bar_foo'')] then Some bar_foo_doc else None)"

definition no_match_query :: UpdateQueryContext where
  "no_match_query = \<lparr>conditions = [(''title'', JObj [(''$in'', JArr [JStr ''foo_bar''])])],
     update = Some [(''title'', JStr ''bar_foo'')],
     original = None, originalId = None, originalIds = None, originals = None\<rparr>"

definition no_match_UpdateResult :: "ModifyResult option" where
  "no_match_UpdateResult = Some \<lparr>lastErrorObject_n = None, upsertedCount = Some 0\<rparr>"

definition no_match_ModifyResult :: "ModifyResult option" where
  "no_match_ModifyResult = Some \<lparr>lastErrorObject_n = Some 0, upsertedCount = None\<rparr>"

definition no_match_null :: "ModifyResult option" where
  "no_match_null = None"

text \<open>
  Excludes whose segments name inherited members, and operations they meet: a value
  with an own \<open>constructor\<close> member, an empty object, and the value of an array field.
\<close>

definition constructor_excludes :: "string list list" where
  "constructor_excludes = map getArrayFromPath [''/x/constructor/keys'', ''/x/constructor'']"

definition constructor_ops :: "PatchOperation list" where
  "constructor_ops =
     [example_op Add ''/x'' (JObj [(''constructor'', JObj [(''keys'', JNum 1)]), (''a'', JNum 1)])]"

definition constructor_filtered :: "PatchOperation list" where
  "constructor_filtered = [example_op Add ''/x'' (JObj [(''a'', JNum 1)])]"

definition isArray_excludes :: "string list list" where
  "isArray_excludes = map getArrayFromPath [''/x/*/foo'', ''/x/arr/constructor/isArray'']"

definition isArray_ops :: "PatchOperation list" where
  "isArray_ops = [example_op Add ''/x'' (JObj [(''arr'', JArr [JNum 1])])]"

text \<open>The document of the exclude test, as its operations before and after the filter.\<close>

definition test_excludes :: "string list list" where
  "test_excludes = map getArrayFromPath
     [''/hidden'', ''/object/hiddenProperty'', ''/object/array/1/hidden'',
      ''/object/array/*/property/hidden'', ''/array/*/hiddenProperty'',
      ''/emptyArray/*/hiddenProperty'']"

definition test_elem :: json where
  "test_elem = JObj [(''hidden'', JStr ''h''), (''property'', JObj [(''hidden'', JStr ''h'')])]"

definition test_ops :: "PatchOperation list" where
  "test_ops =
     [example_op Add ''/name'' (JStr ''exclude1''),
      example_op Add ''/hidden'' (JStr ''hidden''),
      example_op Add ''/object''
        (JObj [(''hiddenProperty'', JStr ''hidden''), (''array'', JArr [test_elem, test_elem, test_elem])]),
      example_op Add ''/array''
        (JArr [JObj [(''hiddenProperty'', JStr ''hidden''), (''property'', JStr ''visible'')],
               JObj [(''hiddenProperty'', JStr ''hidden''), (''property'', JStr ''visible'')]]),
      example_op Add ''/emptyArray'' (JArr [JObj [(''hiddenProperty'', JStr ''hidden'')]])]"

definition test_filtered :: "PatchOperation list" where
  "test_filtered =
     [example_op Add ''/name'' (JStr ''exclude1''),
      example_op Add ''/object''
        (JObj [(''array'', JArr [JObj [(''hidden'', JStr ''h''), (''property'', JObj [])],
                                  JObj [(''property'', JObj [])],
                                  JObj [(''hidden'', JStr ''h''), (''property'', JObj [])]])]),
      example_op Add ''/array''
        (JArr [JObj [(''property'', JStr ''visible'')], JObj [(''property'', JStr ''visible'')]]),
      example_op Add ''/emptyArray'' (JArr [JObj []])]"

section \<open>Properties of the path model\<close>

lemma string_of_nat_nonempty: "string_of_nat n \<noteq> []"
  by (subst string_of_nat.simps) simp

lemma is_digit_char_of: "(d::nat) < 10 \<Longrightarrow> is_digit (char_of (48 + d))"
proof -
  assume d: "d < 10"
  then have "(48 + d) mod 256 = 48 + d" by simp
  with d show ?thesis by (simp add: is_digit_def digit_of_def)
qed

lemma string_of_nat_digits: "list_all is_digit (string_of_nat n)"
proof (induction n rule: string_of_nat.induct)
  case (1 n)
  show ?case
  proof (cases "n < 10")
    case True
    then show ?thesis
      by (subst string_of_nat.simps) (simp add: is_digit_char_of)
  next
    case False
    have "n mod 10 < 10" by simp
    then have "is_digit (char_of (48 + n mod 10))" by (rule is_digit_char_of)
    with False "1.IH" show ?thesis
      by (subst string_of_nat.simps) simp
  qed
qed

lemma isIntegerGreaterEqual0_undefined: "\<not> isIntegerGreaterEqual0 None"
  by (simp add: isIntegerGreaterEqual0_def Number_def Number_isInteger_def)

lemma isPathContained_iff:
  "isPathContained pattern concrete \<longleftrightarrow>
   (\<forall>i<length pattern. i < length concrete \<and>
       (pattern ! i = concrete ! i \<or>
        (pattern ! i = ARRAY_INDEX_WILDCARD \<and> isIntegerGreaterEqual0 (Some (concrete ! i)))))"
proof -
  have step: "\<And>i. i < length pattern \<Longrightarrow>
      (entryIsIdentical (pattern ! i) (js_index concrete i) \<or>
       matchesArrayWildcard (pattern ! i) (js_index concrete i)) \<longleftrightarrow>
      (i < length concrete \<and>
       (pattern ! i = concrete ! i \<or>
        (pattern ! i = ARRAY_INDEX_WILDCARD \<and> isIntegerGreaterEqual0 (Some (concrete ! i)))))"
    using isIntegerGreaterEqual0_undefined
    by (auto simp: js_index_def entryIsIdentical_def matchesArrayWildcard_def
        isArrayIndexWildcard_def)
  show ?thesis
    unfolding isPathContained_def list_all_length
    by (simp add: step)
qed


lemma isPathContained_length:
  "isPathContained pattern concrete \<Longrightarrow> length pattern \<le> length concrete"
  by (metis isPathContained_iff not_le_imp_less order_less_irrefl)



text \<open>
  C10. The wildcard segment matches a concrete segment exactly when the segment's
  \<open>Number\<close> conversion is an integer that is at least zero. That holds for the empty
  string and for \<open>1e2\<close>, \<open>0x10\<close> and \<open>3.0\<close>, none of which is the key of an array index, so
  a wildcard pattern also contains paths whose segment at the wildcard's position is
  not an array index (here the empty last segment of \<open>/a/\<close>, and \<open>/a/1e2\<close>).
\<close>

theorem wildcard_matches_number_strings:
  "(matchesArrayWildcard ''*'' (Some s) \<longleftrightarrow>
      Number_isInteger (StringToNumber s) \<and> ge0 (StringToNumber s))
   \<and> matchesArrayWildcard ''*'' (Some '''') \<and> StringToNumber '''' = Finite 0
   \<and> matchesArrayWildcard ''*'' (Some ''1e2'') \<and> StringToNumber ''1e2'' = Finite 100
   \<and> matchesArrayWildcard ''*'' (Some ''0x10'') \<and> StringToNumber ''0x10'' = Finite 16
   \<and> matchesArrayWildcard ''*'' (Some ''3.0'') \<and> StringToNumber ''3.0'' = Finite 3
   \<and> (\<forall>n. string_of_nat n \<notin> {'''', ''1e2'', ''0x10'', ''3.0''})
   \<and> isPathContained (getArrayFromPath ''/a/*'') (getArrayFromPath ''/a/'')
   \<and> isPathContained (getArrayFromPath ''/a/*'') (getArrayFromPath ''/a/1e2'')"
proof -
  have g: "matchesArrayWildcard ''*'' (Some s) \<longleftrightarrow>
      Number_isInteger (StringToNumber s) \<and> ge0 (StringToNumber s)"
    by (simp add: matchesArrayWildcard_def isArrayIndexWildcard_def ARRAY_INDEX_WILDCARD_def
        isIntegerGreaterEqual0_def Number_def)
  have m1: "matchesArrayWildcard ''*'' (Some '''')" by code_simp
  have m2: "matchesArrayWildcard ''*'' (Some ''1e2'')" by code_simp
  have m3: "matchesArrayWildcard ''*'' (Some ''0x10'')" by code_simp
  have m4: "matchesArrayWildcard ''*'' (Some ''3.0'')" by code_simp
  have n1: "StringToNumber '''' = Finite 0" by code_simp
  have n2: "StringToNumber ''1e2'' = Finite 100" by code_simp
  have n3: "StringToNumber ''0x10'' = Finite 16" by code_simp
  have n4: "StringToNumber ''3.0'' = Finite 3" by code_simp
  have a: "\<forall>n. string_of_nat n \<notin> {'''', ''1e2'', ''0x10'', ''3.0''}"
  proof
    fix n
    have "list_all is_digit (string_of_nat n)" and "string_of_nat n \<noteq> []"
      by (rule string_of_nat_digits, rule string_of_nat_nonempty)
    then show "string_of_nat n \<notin> {'''', ''1e2'', ''0x10'', ''3.0''}"
      by (auto simp: is_digit_def digit_of_def)
  qed
  have p1: "isPathContained (getArrayFromPath ''/a/*'') (getArrayFromPath ''/a/'')"
    by code_simp
  have p2: "isPathContained (getArrayFromPath ''/a/*'') (getArrayFromPath ''/a/1e2'')"
    by code_simp
  show ?thesis
    using g m1 m2 m3 m4 n1 n2 n3 n4 a p1 p2 by blast
qed

section \<open>Properties of rollback\<close>

lemma dropRightWhile_last:
  "xs \<noteq> [] \<Longrightarrow> \<not> P (last xs) \<Longrightarrow> dropRightWhile P xs = xs"
  by (cases xs rule: rev_cases) (simp_all add: dropRightWhile_def)

text \<open>
  C3. For a history that is not empty, rollback to the id of its last record is
  rejected with the error \<open>rollback to latest patch\<close>, and the document is as it was.
\<close>

theorem rollback_latest_rejected:
  assumes "patches \<noteq> []"
  shows "rollback applyPatch mergeDeep setDoc doc patches (patch_id (last patches)) data
         = (doc, Some (RollbackError ''rollback to latest patch''))"
proof -
  have mem: "patch_id (last patches) \<in> set (map patch_id patches)"
    using assms by simp
  have keep: "dropRightWhile (\<lambda>patch. patch_id patch \<noteq> patch_id (last patches)) patches = patches"
    using assms by (simp add: dropRightWhile_last)
  show ?thesis
    using mem by (simp add: rollback_def rollbackState_def keep Let_def)
qed

theorem rollback_latest_rejected_witness:
  "example_history \<noteq> [] \<and>
   rollback applyPatchFlat (\<lambda>objValue srcValue. srcValue) (\<lambda>doc fields. fields)
     [(''text'', JStr ''comm 3'')] example_history ''p3'' []
   = ([(''text'', JStr ''comm 3'')], Some (RollbackError ''rollback to latest patch''))"
proof -
  have ne: "example_history \<noteq> []" by (simp add: example_history_def)
  have l: "patch_id (last example_history) = ''p3''" by (simp add: example_history_def)
  show ?thesis
    using rollback_latest_rejected [OF ne, of applyPatchFlat "\<lambda>objValue srcValue. srcValue"
        "\<lambda>doc fields. fields" "[(''text'', JStr ''comm 3'')]" "[]"] ne
    unfolding l by blast
qed

section \<open>Properties of the change capture\<close>

text \<open>
  The guard of the two \<open>post\<close> hooks: when \<open>lastErrorObject.n\<close> and \<open>upsertedCount\<close> are
  both present and both \<open>0\<close>, the hook returns at once, with no lookup and no record.
\<close>

lemma guard_returns_at_once:
  assumes "result = Some r" and "lastErrorObject_n r = Some 0" and "upsertedCount r = Some 0"
  shows "postUpdateOne compare excludes findOne this result = Inr \<lparr>lookups = [], created = []\<rparr>
       \<and> postUpdateMany compare excludes findMany this result = Inr \<lparr>lookups = [], created = []\<rparr>"
  using assms by (simp add: postUpdateOne_def postUpdateMany_def untouched_def)

text \<open>
  C6. An update that matches no document and inserts none is not skipped. The guard
  asks for \<open>lastErrorObject.n\<close> and \<open>upsertedCount\<close> together, and no result has both:
  for the \<open>UpdateResult\<close> of \<open>updateMany\<close> and \<open>updateOne\<close>, for \<open>null\<close> and for a
  \<open>ModifyResult\<close> the hook goes on. Nothing was captured before the update, so it looks
  up the conditions merged with the update, \<open>{title: 'bar_foo'}\<close>, finds the document
  that already had that title, and writes a change record for it, though the update
  did not touch it.
\<close>

theorem untouched_update_recorded:
  "postUpdateMany compareFlat [] bar_foo_findMany
       (preUpdateMany bar_foo_findMany no_match_query) no_match_UpdateResult
     = Inr \<lparr>lookups = [JObj [(''title'', JStr ''bar_foo'')]],
            created = [\<lparr>ops = [example_op Add ''/title'' (JStr ''bar_foo'')], ref = ''A''\<rparr>]\<rparr>
   \<and> postUpdateOne compareFlat [] bar_foo_findOne
       (preUpdateOne bar_foo_findOne no_match_query) no_match_UpdateResult
     = Inr \<lparr>lookups = [JObj [(''title'', JStr ''bar_foo'')]],
            created = [\<lparr>ops = [example_op Add ''/title'' (JStr ''bar_foo'')], ref = ''A''\<rparr>]\<rparr>
   \<and> postUpdateOne compareFlat [] bar_foo_findOne
       (preUpdateOne bar_foo_findOne no_match_query) no_match_null
     = Inr \<lparr>lookups = [JObj [(''title'', JStr ''bar_foo'')]],
            created = [\<lparr>ops = [example_op Add ''/title'' (JStr ''bar_foo'')], ref = ''A''\<rparr>]\<rparr>
   \<and> postUpdateOne compareFlat [] bar_foo_findOne
       (preUpdateOne bar_foo_findOne no_match_query) no_match_ModifyResult
     = Inr \<lparr>lookups = [JObj [(''title'', JStr ''bar_foo'')]],
            created = [\<lparr>ops = [example_op Add ''/title'' (JStr ''bar_foo'')], ref = ''A''\<rparr>]\<rparr>"
proof -
  have m: "postUpdateMany compareFlat [] bar_foo_findMany
       (preUpdateMany bar_foo_findMany no_match_query) no_match_UpdateResult
     = Inr \<lparr>lookups = [JObj [(''title'', JStr ''bar_foo'')]],
            created = [\<lparr>ops = [example_op Add ''/title'' (JStr ''bar_foo'')], ref = ''A''\<rparr>]\<rparr>"
    by code_simp
  have u: "postUpdateOne compareFlat [] bar_foo_findOne
       (preUpdateOne bar_foo_findOne no_match_query) no_match_UpdateResult
     = Inr \<lparr>lookups = [JObj [(''title'', JStr ''bar_foo'')]],
            created = [\<lparr>ops = [example_op Add ''/title'' (JStr ''bar_foo'')], ref = ''A''\<rparr>]\<rparr>"
    by code_simp
  have n: "postUpdateOne compareFlat [] bar_foo_findOne
       (preUpdateOne bar_foo_findOne no_match_query) no_match_null
     = Inr \<lparr>lookups = [JObj [(''title'', JStr ''bar_foo'')]],
            created = [\<lparr>ops = [example_op Add ''/title'' (JStr ''bar_foo'')], ref = ''A''\<rparr>]\<rparr>"
    by code_simp
  have r: "postUpdateOne compareFlat [] bar_foo_findOne
       (preUpdateOne bar_foo_findOne no_match_query) no_match_ModifyResult
     = Inr \<lparr>lookups = [JObj [(''title'', JStr ''bar_foo'')]],
            created = [\<lparr>ops = [example_op Add ''/title'' (JStr ''bar_foo'')], ref = ''A''\<rparr>]\<rparr>"
    by code_simp
  from m u n r show ?thesis by blast
qed






text \<open>
  C7, at a batch update whose first captured document is gone when the documents are
  looked up again. The hook pairs by position only: the remaining document \<open>B\<close> is
  diffed against the snapshot captured for \<open>A\<close>, and its record also replaces the
  title. Diffed against its own snapshot, the record would only add the flag.
\<close>

theorem batch_pairing_misattributes_snapshot:
  "postUpdateMany compareFlat [] (\<lambda>c. [docB_after])
     (preUpdateMany (\<lambda>c. [docA, docB]) batch_query) None
   = Inr \<lparr>lookups = [JObj [(''_id'', JObj [(''$in'', JArr [JStr ''A'', JStr ''B''])])]],
          created = [\<lparr>ops = [\<lparr>op_name = Replace, op_path = ''/title'',
                                 op_value = Some (JStr ''b''), op_from = None\<rparr>,
                               \<lparr>op_name = Add, op_path = ''/flag'',
                                 op_value = Some (JBool True), op_from = None\<rparr>],
                       ref = ''B''\<rparr>]\<rparr>
   \<and> createPatch compareFlat [] (Some (doc_data docB)) docB_after
     = Inr [\<lparr>ops = [\<lparr>op_name = Add, op_path = ''/flag'',
                        op_value = Some (JBool True), op_from = None\<rparr>],
              ref = ''B''\<rparr>]"
  by (simp add: postUpdateMany_def preUpdateMany_def lookupConditionsMany_def untouched_def
      batch_query_def docA_def docB_def docB_after_def createPatch_def excludeOperations_def
      compareFlat_def js_index_def defined_def)

section \<open>Replay and merge in rollback\<close>

lemma dropRightWhile_append_all:
  assumes "\<And>y. y \<in> set ys \<Longrightarrow> P y"
  shows "dropRightWhile P (xs @ ys) = dropRightWhile P xs"
proof -
  have "dropWhile P (rev ys @ rev xs) = dropWhile P (rev xs)"
    by (rule dropWhile_append2) (simp add: assms)
  then show ?thesis by (simp add: dropRightWhile_def)
qed

lemma dropRightWhile_take:
  assumes "distinct (map patch_id patches)" and "i < length patches"
  shows "dropRightWhile (\<lambda>patch. patch_id patch \<noteq> patch_id (patches ! i)) patches
         = take (Suc i) patches"
proof -
  let ?P = "\<lambda>patch. patch_id patch \<noteq> patch_id (patches ! i)"
  have later: "?P y" if "y \<in> set (drop (Suc i) patches)" for y
  proof -
    from that obtain j where j: "j < length (drop (Suc i) patches)"
      and y: "y = drop (Suc i) patches ! j"
      by (auto simp: in_set_conv_nth)
    then have yj: "y = patches ! (Suc i + j)" and b: "Suc i + j < length patches"
      by auto
    have "patch_id (patches ! (Suc i + j)) \<noteq> patch_id (patches ! i)"
      using nth_eq_iff_index_eq [OF assms(1), of "Suc i + j" i] b assms(2) by simp
    then show ?thesis using yj by simp
  qed
  have ne: "take (Suc i) patches \<noteq> []" using assms(2) by auto
  have l: "last (take (Suc i) patches) = patches ! i"
    using assms(2) by (simp add: take_Suc_conv_app_nth)
  have "dropRightWhile ?P patches
        = dropRightWhile ?P (take (Suc i) patches @ drop (Suc i) patches)"
    by simp
  also have "\<dots> = dropRightWhile ?P (take (Suc i) patches)"
    using later by (rule dropRightWhile_append_all)
  also have "\<dots> = take (Suc i) patches"
    using ne l by (simp add: dropRightWhile_last)
  finally show ?thesis .
qed

lemma applyOperations_append:
  "applyOperations step s (xs @ ys)
   = (case applyOperations step s xs of Inl e \<Rightarrow> Inl e | Inr s' \<Rightarrow> applyOperations step s' ys)"
  by (induction xs arbitrary: s) (auto split: sum.splits)

lemma applyAll_concat:
  "applyAll (applyOperations step) s hs = applyOperations step s (concat (map ops hs))"
  by (induction hs arbitrary: s) (auto simp: applyOperations_append split: sum.splits)

lemma merge_fold_lookup:
  "distinct (map fst source) \<Longrightarrow>
   map_of (foldl (\<lambda>acc (key, srcValue).
              if isObject srcValue
              then assignMergeValue acc key (mergeDeep (map_of acc key) srcValue)
              else assignMergeValue acc key srcValue) object source) k
   = (case map_of source k of
        None \<Rightarrow> map_of object k
      | Some v \<Rightarrow>
          (let v' = (if isObject v then mergeDeep (map_of object k) v else v)
           in if v' = JUndefined \<and> map_of object k \<noteq> None then map_of object k else Some v'))"
proof (induction source arbitrary: object)
  case Nil
  then show ?case by simp
next
  case (Cons kv source)
  obtain k1 v1 where kv: "kv = (k1, v1)" by (cases kv)
  from Cons.prems kv have notin: "map_of source k1 = None" and d: "distinct (map fst source)"
    by (auto simp: map_of_eq_None_iff)
  define object' where "object' = (if isObject v1
              then assignMergeValue object k1 (mergeDeep (map_of object k1) v1)
              else assignMergeValue object k1 v1)"
  have other: "map_of object' k = map_of object k" if "k \<noteq> k1"
    using that by (simp add: object'_def assignMergeValue_def update_conv')
  have same: "map_of object' k1 =
      (let v' = (if isObject v1 then mergeDeep (map_of object k1) v1 else v1)
       in if v' = JUndefined \<and> map_of object k1 \<noteq> None then map_of object k1 else Some v')"
    by (auto simp: object'_def assignMergeValue_def update_conv' Let_def map_of_eq_None_iff)
  let ?f = "\<lambda>acc (key, srcValue).
              if isObject srcValue
              then assignMergeValue acc key (mergeDeep (map_of acc key) srcValue)
              else assignMergeValue acc key srcValue"
  have step: "foldl ?f object (kv # source) = foldl ?f object' source"
    by (simp add: kv object'_def)
  show ?case
  proof (cases "k = k1")
    case True
    have "map_of (foldl ?f object' source) k1 = map_of object' k1"
      using Cons.IH [OF d, of object'] notin unfolding True by simp
    then show ?thesis
      unfolding True step by (simp add: kv same)
  next
    case False
    have "map_of (foldl ?f object' source) k
          = (case map_of source k of
               None \<Rightarrow> map_of object k
             | Some v \<Rightarrow>
                (let v' = (if isObject v then mergeDeep (map_of object k) v else v)
                 in if v' = JUndefined \<and> map_of object k \<noteq> None then map_of object k else Some v'))"
      using Cons.IH [OF d, of object'] unfolding other [OF False] .
    then show ?thesis
      unfolding step using False by (simp add: kv)
  qed
qed

lemma merge_lookup:
  "map_of (merge mergeDeep object source) k
   = (case map_of source k of
        None \<Rightarrow> map_of object k
      | Some v \<Rightarrow>
          (let v' = (if isObject v then mergeDeep (map_of object k) v else v)
           in if v' = JUndefined \<and> map_of object k \<noteq> None then map_of object k else Some v'))"
  unfolding merge_def
  by (simp add: merge_fold_lookup map_of_clearjunk)


lemma example_state_p2:
  "rollbackState applyPatchFlat example_history ''p2'' = Inr [(''text'', JStr ''comm 2'')]"
  by code_simp

text \<open>
  C1, as the code has it. When the replay succeeds, \<open>rollback\<close> sets
  \<open>merge(data, state)\<close> on the document, and the reconstructed state is the source of
  that merge: on a key that both have, a state value that is a string, number, boolean
  or \<open>null\<close> replaces the override; an override survives only on keys the state does
  not have; a state value that is an array or an object goes through the library's
  recursive merge with the override's value.
\<close>

theorem rollback_merges_state_over_overrides:
  assumes "rollbackState applyPatch patches patchId = Inr state"
  shows "rollback applyPatch mergeDeep setDoc doc patches patchId data
         = (setDoc doc (merge mergeDeep data state), None)
       \<and> (\<forall>k v. map_of state k = Some v \<and> \<not> isObject v \<and> v \<noteq> JUndefined
              \<longrightarrow> map_of (merge mergeDeep data state) k = Some v)
       \<and> (\<forall>k. map_of state k = None
              \<longrightarrow> map_of (merge mergeDeep data state) k = map_of data k)
       \<and> (\<forall>k v. map_of state k = Some v \<and> isObject v
                \<and> mergeDeep (map_of data k) v \<noteq> JUndefined
              \<longrightarrow> map_of (merge mergeDeep data state) k = Some (mergeDeep (map_of data k) v))"
  using assms by (simp add: rollback_def merge_lookup)

theorem rollback_merges_state_over_overrides_witness:
  "rollback applyPatchFlat (\<lambda>objValue srcValue. srcValue) (\<lambda>doc fields. fields)
     [(''text'', JStr ''comm 3'')] example_history ''p2''
     [(''user'', JStr ''u''), (''text'', JStr ''mine'')]
   = (merge (\<lambda>objValue srcValue. srcValue) [(''user'', JStr ''u''), (''text'', JStr ''mine'')]
        [(''text'', JStr ''comm 2'')], None)
   \<and> map_of (merge (\<lambda>objValue srcValue. srcValue)
               [(''user'', JStr ''u''), (''text'', JStr ''mine'')] [(''text'', JStr ''comm 2'')])
        ''text'' = Some (JStr ''comm 2'')
   \<and> map_of (merge (\<lambda>objValue srcValue. srcValue)
               [(''user'', JStr ''u''), (''text'', JStr ''mine'')] [(''text'', JStr ''comm 2'')])
        ''user'' = Some (JStr ''u'')"
  using rollback_merges_state_over_overrides [OF example_state_p2,
      of "\<lambda>objValue srcValue. srcValue" "\<lambda>doc fields. fields" "[(''text'', JStr ''comm 3'')]"
         "[(''user'', JStr ''u''), (''text'', JStr ''mine'')]"]
  by simp

text \<open>
  The claim as written fails on the comment history: rolled back to the second patch
  with the override \<open>text = mine\<close>, the document gets the reconstructed \<open>comm 2\<close>.
\<close>

theorem rollback_override_loses_counterexample:
  "map_of (fst (rollback applyPatchFlat (\<lambda>objValue srcValue. srcValue) (\<lambda>doc fields. fields)
                  [(''text'', JStr ''comm 3'')] example_history ''p2'' [(''text'', JStr ''mine'')]))
     ''text'' = Some (JStr ''comm 2'')
   \<and> map_of [(''text'', JStr ''mine'')] ''text'' = Some (JStr ''mine'')
   \<and> map_of [(''text'', JStr ''comm 2'')] ''text'' = Some (JStr ''comm 2'')"
  by (simp add: rollback_def example_state_p2 merge_lookup)

text \<open>
  C2, as the code has it. With distinct patch ids, rollback to the record at a position
  \<open>i\<close> that is not the last replays the records \<open>0..i\<close> in order from the empty object;
  with a patch library that applies a patch operation by operation, that is every
  operation of those records, record by record and in each record's order. (At the
  last position the rollback is rejected, see C3.)
\<close>

theorem rollback_replays_prefix:
  assumes "distinct (map patch_id patches)" and "Suc i < length patches"
  shows "rollbackState applyPatch patches (patch_id (patches ! i))
         = applyAll applyPatch [] (take (Suc i) patches)
       \<and> rollbackState (applyOperations applyOperation) patches (patch_id (patches ! i))
         = applyOperations applyOperation [] (concat (map ops (take (Suc i) patches)))"
proof -
  have i: "i < length patches" using assms(2) by simp
  have mem: "patch_id (patches ! i) \<in> set (map patch_id patches)"
    using i by simp
  have "rollbackState ap patches (patch_id (patches ! i))
         = applyAll ap [] (take (Suc i) patches)" for ap
    using mem assms(2)
    by (simp add: rollbackState_def Let_def dropRightWhile_take [OF assms(1) i] del: set_map)
  then show ?thesis by (simp add: applyAll_concat)
qed

theorem rollback_replays_prefix_witness:
  "distinct (map patch_id example_history) \<and> Suc 1 < length example_history
   \<and> rollbackState applyPatchFlat example_history (patch_id (example_history ! 1))
     = applyOperations applyOperationFlat []
         [example_op Add ''/text'' (JStr ''comm 1''), example_op Replace ''/text'' (JStr ''comm 2'')]
   \<and> applyOperations applyOperationFlat []
         [example_op Add ''/text'' (JStr ''comm 1''), example_op Replace ''/text'' (JStr ''comm 2'')]
     = Inr [(''text'', JStr ''comm 2'')]"
proof -
  have d: "distinct (map patch_id example_history)" by (simp add: example_history_def)
  have l: "Suc 1 < length example_history" by (simp add: example_history_def)
  have c: "concat (map ops (take (Suc 1) example_history))
           = [example_op Add ''/text'' (JStr ''comm 1''), example_op Replace ''/text'' (JStr ''comm 2'')]"
    by (simp add: example_history_def)
  have r: "applyOperations applyOperationFlat []
             [example_op Add ''/text'' (JStr ''comm 1''), example_op Replace ''/text'' (JStr ''comm 2'')]
           = Inr [(''text'', JStr ''comm 2'')]"
    by code_simp
  from rollback_replays_prefix [OF d l, of applyPatchFlat applyOperationFlat] d l r
  show ?thesis
    unfolding c applyPatchFlat_def by blast
qed

text \<open>
  The claim as written fails at the last position: the third record of the comment
  history can be replayed, but rollback to it is rejected.
\<close>

theorem rollback_last_index_counterexample:
  "(2::nat) < length example_history
   \<and> rollbackState applyPatchFlat example_history (patch_id (example_history ! 2))
     = Inl (RollbackError ''rollback to latest patch'')
   \<and> applyAll applyPatchFlat [] (take (Suc 2) example_history) = Inr [(''text'', JStr ''comm 3'')]"
proof -
  have a: "(2::nat) < length example_history" by (simp add: example_history_def)
  have b: "rollbackState applyPatchFlat example_history (patch_id (example_history ! 2))
     = Inl (RollbackError ''rollback to latest patch'')"
    by code_simp
  have c: "applyAll applyPatchFlat [] (take (Suc 2) example_history) = Inr [(''text'', JStr ''comm 3'')]"
    by code_simp
  from a b c show ?thesis by blast
qed

section \<open>Properties of the exclusion filter\<close>

lemma hidden_pattern_eq: "hidden_pattern = [''object'', ''array'', ''*'', ''property'', ''hidden'']"
  by (simp add: hidden_pattern_def getArrayFromPath_def)

lemma array_index_not_digits: "\<not> list_all is_digit k \<Longrightarrow> array_index len k = None"
  using string_of_nat_digits by (auto simp: array_index_def find_None_iff)

lemma array_index_property: "array_index len ''property'' = None"
  by (rule array_index_not_digits) (simp add: is_digit_def digit_of_def)

lemma array_index_hidden: "array_index len ''hidden'' = None"
  by (rule array_index_not_digits) (simp add: is_digit_def digit_of_def)

lemma delete_hidden_idle:
  "map_of p ''hidden'' = None \<Longrightarrow> AList.delete ''hidden'' p = p"
  by (simp add: map_of_eq_None_iff)

lemmas prototype_defs =
  Object_prototype_def Array_prototype_def String_prototype_def Number_prototype_def
  Boolean_prototype_def

lemma property_not_inherited: "\<not> inherited_member v ''property''"
  by (cases v) (simp_all add: prototype_defs)

lemma hidden_not_inherited: "\<not> inherited_member v ''hidden''"
  by (cases v) (simp_all add: prototype_defs)

lemma array_not_inherited: "\<not> inherited_member v ''array''"
  by (cases v) (simp_all add: prototype_defs)

lemma walk_property_hidden:
  "\<exists>checked. deepRemoveWalk [''property'', ''hidden''] elem = Inr (checked, hideProperty elem)
      \<and> (checked \<longrightarrow> (\<exists>n. Object_keys_length (hideProperty elem) = Inr n))"
proof (cases elem)
  case (JObj kvs)
  show ?thesis
  proof (cases "map_of kvs ''property''")
    case None
    then show ?thesis
      by (auto simp: JObj hideProperty_def ARRAY_INDEX_WILDCARD_def defined_def
            property_not_inherited simp del: inherited_member.simps)
  next
    case (Some p)
    then show ?thesis
      by (cases p)
         (auto simp: JObj hideProperty_def ARRAY_INDEX_WILDCARD_def defined_def
            array_index_hidden update_triv delete_hidden_idle
            property_not_inherited hidden_not_inherited
            simp del: inherited_member.simps
            split: option.splits json.splits)
  qed
qed (auto simp: hideProperty_def ARRAY_INDEX_WILDCARD_def array_index_property
       property_not_inherited simp del: inherited_member.simps)

lemma each_property_hidden:
  "deepRemoveEach [''property'', ''hidden''] es = Inr (map hideProperty es)"
proof (induction es)
  case Nil
  then show ?case by simp
next
  case (Cons elem es)
  obtain checked n where w: "deepRemoveWalk [''property'', ''hidden''] elem = Inr (checked, hideProperty elem)"
    and k: "checked \<longrightarrow> Object_keys_length (hideProperty elem) = Inr n"
    using walk_property_hidden [of elem] by blast
  have u: "hideProperty JUndefined = JUndefined" by (simp add: hideProperty_def)
  show ?case
    using Cons.IH w k u by (cases checked) (simp_all del: deepRemoveWalk.simps)
qed


lemma contained_array: "isPathContained [''object'', ''array''] hidden_pattern"
  unfolding hidden_pattern_eq by code_simp

lemma contained_object: "isPathContained [''object''] hidden_pattern"
  unfolding hidden_pattern_eq by code_simp

lemma not_contained_rev:
  "length path < 5 \<Longrightarrow> \<not> isPathContained hidden_pattern path"
  using isPathContained_length [of hidden_pattern path] by (auto simp: hidden_pattern_eq)

lemma hideProperty_undefined: "hideProperty e = JUndefined \<longleftrightarrow> e = JUndefined"
  by (auto simp: hideProperty_def split: json.splits option.splits)

lemma deepRemovePath_array_op:
  "deepRemovePath (array_op es) hidden_pattern
   = Inr (\<exists>e \<in> set es. e \<noteq> JUndefined, array_op (map hideProperty es))"
proof -
  have p: "sanitizeEmptyPath (getArrayFromPath (op_path (array_op es))) = [''object'', ''array'']"
    by (simp add: array_op_def getArrayFromPath_def sanitizeEmptyPath_def)
  have d: "drop (min (length [''object'', ''array'']) (length hidden_pattern - 1)) hidden_pattern
           = [''*'', ''property'', ''hidden'']"
    by (simp add: hidden_pattern_eq)
  have w: "deepRemoveWalk [''*'', ''property'', ''hidden''] (JArr es)
           = Inr (True, JArr (map hideProperty es))"
    by (simp add: ARRAY_INDEX_WILDCARD_def each_property_hidden del: deepRemoveEach.simps)
  have k: "(length (filter (\<lambda>x. x \<noteq> JUndefined) (map hideProperty es)) \<noteq> 0)
           = (\<exists>e \<in> set es. e \<noteq> JUndefined)"
    by (auto simp: filter_empty_conv hideProperty_undefined)
  show ?thesis
    unfolding deepRemovePath_def Let_def p d
    using contained_array k by (simp add: w array_op_def del: deepRemoveWalk.simps)
qed

lemma deepRemovePath_object_op:
  assumes "map_of kvs ''array'' = Some (JArr es)"
  shows "deepRemovePath (object_op kvs) hidden_pattern
         = Inr (True, object_op (AList.update ''array'' (JArr (map hideProperty es)) kvs))"
proof -
  have p: "sanitizeEmptyPath (getArrayFromPath (op_path (object_op kvs))) = [''object'']"
    by (simp add: object_op_def getArrayFromPath_def sanitizeEmptyPath_def)
  have d: "drop (min (length [''object'']) (length hidden_pattern - 1)) hidden_pattern
           = [''array'', ''*'', ''property'', ''hidden'']"
    by (simp add: hidden_pattern_eq)
  have w': "deepRemoveWalk [''*'', ''property'', ''hidden''] (JArr es)
           = Inr (True, JArr (map hideProperty es))"
    by (simp add: ARRAY_INDEX_WILDCARD_def each_property_hidden del: deepRemoveEach.simps)
  have w: "deepRemoveWalk [''array'', ''*'', ''property'', ''hidden''] (JObj kvs)
           = Inr (True, JObj (AList.update ''array'' (JArr (map hideProperty es)) kvs))"
    using assms
    by (subst deepRemoveWalk.simps) (simp add: ARRAY_INDEX_WILDCARD_def defined_def w' del: deepRemoveWalk.simps)
  show ?thesis
    unfolding deepRemovePath_def Let_def p d
    using contained_object by (simp add: w object_op_def del: deepRemoveWalk.simps)
qed

text \<open>
  C4. With the exclude \<open>/object/array/*/property/hidden\<close>, an \<open>add\<close> of an array at
  \<open>/object/array\<close> comes out of the filter as one \<open>add\<close> at the same path whose value
  has the same elements in the same order, each with only the \<open>hidden\<close> key of its
  \<open>property\<close> removed; an element that is left empty stays in the array. The operation
  is dropped only when the array itself has no element. The same pruning applies when
  the array sits in the value of an \<open>add\<close> at \<open>/object\<close>.
\<close>

theorem wildcard_prunes_each_element:
  "((\<exists>e \<in> set es. e \<noteq> JUndefined) \<longrightarrow>
      excludeOperations [hidden_pattern] [array_op es] = Inr [array_op (map hideProperty es)])
   \<and> ((\<forall>e \<in> set es. e = JUndefined) \<longrightarrow>
      excludeOperations [hidden_pattern] [array_op es] = Inr [])
   \<and> (map_of kvs ''array'' = Some (JArr es) \<longrightarrow>
      excludeOperations [hidden_pattern] [object_op kvs]
      = Inr [object_op (AList.update ''array'' (JArr (map hideProperty es)) kvs)])
   \<and> length (map hideProperty es) = length es"
proof -
  have a: "\<not> isPathContained hidden_pattern (getArrayFromPath (op_path (array_op es)))"
    by (rule not_contained_rev) (simp add: array_op_def getArrayFromPath_def)
  have b: "\<not> isPathContained hidden_pattern (getArrayFromPath (op_path (object_op kvs)))"
    by (rule not_contained_rev) (simp add: object_op_def getArrayFromPath_def)
  show ?thesis
    using a b
    by (auto simp: excludeOperations_def keepOperation_def deepRemovePath_array_op
        deepRemovePath_object_op)
qed


theorem wildcard_prunes_each_element_witness:
  "excludeOperations [hidden_pattern] [array_op [elem_only_hidden, elem_no_hidden, elem_mixed]]
   = Inr [array_op [JObj [(''property'', JObj [])], elem_no_hidden,
                    JObj [(''name'', JStr ''n''), (''property'', JObj [(''shown'', JStr ''s'')])]]]
   \<and> excludeOperations [hidden_pattern] [array_op []] = Inr []
   \<and> excludeOperations [hidden_pattern]
        [object_op [(''array'', JArr [elem_only_hidden, elem_no_hidden, elem_mixed])]]
     = Inr [object_op [(''array'', JArr [JObj [(''property'', JObj [])], elem_no_hidden,
                    JObj [(''name'', JStr ''n''), (''property'', JObj [(''shown'', JStr ''s'')])]])]]"
proof -
  let ?es = "[elem_only_hidden, elem_no_hidden, elem_mixed]"
  have h: "map hideProperty ?es
           = [JObj [(''property'', JObj [])], elem_no_hidden,
              JObj [(''name'', JStr ''n''), (''property'', JObj [(''shown'', JStr ''s'')])]]"
    by (simp add: hideProperty_def elem_only_hidden_def elem_no_hidden_def elem_mixed_def defined_def)
  have ne: "\<exists>e \<in> set ?es. e \<noteq> JUndefined" by (simp add: elem_only_hidden_def)
  have em: "\<forall>e \<in> set ([]::json list). e = JUndefined" by simp
  have m: "map_of [(''array'', JArr ?es)] ''array'' = Some (JArr ?es)" by simp
  from wildcard_prunes_each_element [of ?es "[(''array'', JArr ?es)]"] ne m
  have 1: "excludeOperations [hidden_pattern] [array_op ?es] = Inr [array_op (map hideProperty ?es)]"
    and 3: "excludeOperations [hidden_pattern] [object_op [(''array'', JArr ?es)]]
      = Inr [object_op (AList.update ''array'' (JArr (map hideProperty ?es)) [(''array'', JArr ?es)])]"
    by blast+
  from wildcard_prunes_each_element [of "[]" "[]"] em
  have 2: "excludeOperations [hidden_pattern] [array_op []] = Inr []"
    by blast
  from 1 2 3 show ?thesis
    unfolding h by simp
qed

text \<open>
  The exclude test of the repository: the filter on the operations of the test document.
\<close>

lemma test_run: "excludeOperations test_excludes test_ops = Inr test_filtered"
  by code_simp

text \<open>
  An exclude segment that names an inherited member is a hit although the value has
  no such member of its own: with the exclude \<open>/object/constructor\<close> the \<open>add\<close> of an empty
  object at \<open>/object\<close> takes the delete branch, which removes nothing, and is dropped
  because its value has no keys.
\<close>

lemma inherited_last_key_drops:
  "excludeOperations [getArrayFromPath ''/object/constructor''] [object_op []] = Inr []"
  by code_simp

text \<open>
  The walk leaves the operation's value only through an exclude segment that names an
  inherited member.
\<close>

lemma inherited_member_named: "inherited_member v k \<Longrightarrow> names_inherited_member k"
  by (cases v) (auto simp: names_inherited_member_def)

lemma Object_keys_length_inside: "Object_keys_length v \<noteq> Inl (BuiltinObjectReached b r)"
  by (cases v) auto

lemma delete_prop_inside: "delete_prop v k \<noteq> Inl (BuiltinObjectReached b r)"
  by (cases v) (auto split: option.splits)

lemma deepRemoveEach_inside:
  "(\<And>x. deepRemoveWalk sub x \<noteq> Inl (BuiltinObjectReached b r)) \<Longrightarrow>
     deepRemoveEach sub xs \<noteq> Inl (BuiltinObjectReached b r)"
proof (induction xs)
  case Nil
  then show ?case by simp
next
  case (Cons elem rest)
  from Cons.prems have w: "deepRemoveWalk sub elem \<noteq> Inl (BuiltinObjectReached b r)" .
  from Cons have e: "deepRemoveEach sub rest \<noteq> Inl (BuiltinObjectReached b r)" by blast
  show ?case
    using w e Object_keys_length_inside [of _ b r]
    by (cases "elem = JUndefined") (auto split: sum.splits if_splits prod.splits)
qed

lemma deepRemoveWalk_inside:
  "(\<forall>k \<in> set path. \<not> names_inherited_member k) \<Longrightarrow>
     deepRemoveWalk path v \<noteq> Inl (BuiltinObjectReached b r)"
proof (induction path arbitrary: v rule: induct_list012)
  case 1
  then show ?case by simp
next
  case (2 lastKey)
  then show ?case
    using delete_prop_inside [of v lastKey b r]
    by (auto split: option.splits sum.splits if_splits)
next
  case (3 k k' ks)
  from "3.prems" have nk: "\<not> inherited_member v k"
    by (auto dest: inherited_member_named)
  from "3.prems" have sub: "\<forall>k \<in> set (k' # ks). \<not> names_inherited_member k" by simp
  have w: "deepRemoveWalk (k' # ks) x \<noteq> Inl (BuiltinObjectReached b r)" for x
    using "3.IH"(2) [OF sub] .
  have e: "deepRemoveEach (k' # ks) xs \<noteq> Inl (BuiltinObjectReached b r)" for xs
    by (rule deepRemoveEach_inside) (rule w)
  show ?case
    using nk w e
    by (auto simp del: inherited_member.simps deepRemoveEach.simps
        split: option.splits sum.splits prod.splits)
qed

lemma deepRemovePath_inside:
  assumes "\<forall>k \<in> set exclude. \<not> names_inherited_member k"
  shows "deepRemovePath patch exclude \<noteq> Inl (BuiltinObjectReached b r)"
proof -
  have "\<forall>k \<in> set (drop n exclude). \<not> names_inherited_member k" for n
    using assms by (auto dest: in_set_dropD)
  from deepRemoveWalk_inside [OF this] show ?thesis
    using Object_keys_length_inside [of _ b r]
    by (auto simp: deepRemovePath_def Let_def split: option.splits sum.splits prod.splits)
qed

lemma deepRemoveEvery_inside:
  "(\<forall>exclude \<in> set excludes. \<forall>k \<in> set exclude. \<not> names_inherited_member k) \<Longrightarrow>
     deepRemoveEvery excludes patch \<noteq> Inl (BuiltinObjectReached b r)"
proof (induction excludes arbitrary: patch)
  case Nil
  then show ?case by simp
next
  case (Cons exclude rest)
  from Cons.prems have "deepRemovePath patch exclude \<noteq> Inl (BuiltinObjectReached b r)"
    by (simp add: deepRemovePath_inside)
  moreover from Cons have "deepRemoveEvery rest p \<noteq> Inl (BuiltinObjectReached b r)" for p
    by simp
  ultimately show ?case
    by (auto split: sum.splits prod.splits)
qed

lemma filterOperations_inside:
  "(\<forall>exclude \<in> set excludes. \<forall>k \<in> set exclude. \<not> names_inherited_member k) \<Longrightarrow>
     filterOperations excludes operations \<noteq> Inl (BuiltinObjectReached b r)"
proof (induction operations)
  case Nil
  then show ?case by simp
next
  case (Cons patch rest)
  from Cons.prems have "keepOperation excludes patch \<noteq> Inl (BuiltinObjectReached b r)"
    by (simp add: keepOperation_def Let_def deepRemoveEvery_inside)
  with Cons show ?case
    by (auto split: sum.splits prod.splits)
qed

lemma excludeOperations_inside:
  "(\<forall>exclude \<in> set excludes. \<forall>k \<in> set exclude. \<not> names_inherited_member k) \<Longrightarrow>
     excludeOperations excludes operations \<noteq> Inl (BuiltinObjectReached b r)"
  by (simp add: excludeOperations_def filterOperations_inside)

text \<open>
  C9. Filtering the filtered list again does not always give the same list, because
  the walk follows inherited members out of the operation's value. With the excludes
  \<open>/x/*/foo\<close> and \<open>/x/arr/constructor/isArray\<close> and the operation \<open>add /x {arr: [1]}\<close>,
  the second exclude reads \<open>arr\<close>, then the \<open>constructor\<close> that the array inherits, and
  arrives at the built-in \<open>Array\<close> with the last key \<open>isArray\<close>: the program deletes
  \<open>Array.isArray\<close> and returns the operation, and a second pass over the returned list
  throws at the wildcard test \<open>Array.isArray(value)\<close> of the first exclude. With the
  excludes \<open>/x/constructor/keys\<close> and \<open>/x/constructor\<close>, the first pass stays inside the
  value: it removes the own \<open>constructor\<close> member and returns the operation with
  \<open>{a: 1}\<close>. In the second pass the first exclude finds the inherited \<open>constructor\<close> of
  that value and arrives at the built-in \<open>Object\<close> with the last key \<open>keys\<close>: the program
  deletes \<open>Object.keys\<close>, and the test \<open>Object.keys(patchValue)\<close> that follows throws.
  In both cases the second pass returns no list.
\<close>

theorem exclusion_second_pass_leaves_value:
  "excludeOperations isArray_excludes isArray_ops
     = Inl (BuiltinObjectReached [''Array''] [''isArray''])
   \<and> excludeOperations constructor_excludes constructor_ops = Inr constructor_filtered
   \<and> excludeOperations constructor_excludes constructor_filtered
     = Inl (BuiltinObjectReached [''Object''] [''keys''])"
proof -
  have a: "excludeOperations isArray_excludes isArray_ops
     = Inl (BuiltinObjectReached [''Array''] [''isArray''])"
    by code_simp
  have b: "excludeOperations constructor_excludes constructor_ops = Inr constructor_filtered"
    by code_simp
  have c: "excludeOperations constructor_excludes constructor_filtered
     = Inl (BuiltinObjectReached [''Object''] [''keys''])"
    by code_simp
  from a b c show ?thesis by blast
qed

section \<open>Idempotence of the exclusion filter away from inherited members\<close>

text \<open>
  Excludes whose segments name no inherited member: the walk then reads own members
  only.
\<close>

lemma own_names_Nil [simp]: "own_names []"
  by (simp add: own_names_def)

lemma own_names_Cons [simp]:
  "own_names (k # ks) \<longleftrightarrow> \<not> names_inherited_member k \<and> own_names ks"
  by (simp add: own_names_def)

lemma own_names_drop: "own_names path \<Longrightarrow> own_names (drop n path)"
  by (auto simp: own_names_def dest: in_set_dropD)

lemma not_named_not_inherited [simp]:
  "\<not> names_inherited_member k \<Longrightarrow> inherited_member v k = False"
  using inherited_member_named by blast

declare inherited_member.simps [simp del]


subsection \<open>Reading, writing and deleting properties\<close>

lemma array_index_SomeD:
  "array_index len k = Some n \<Longrightarrow> n < len \<and> string_of_nat n = k"
  by (auto simp: array_index_def find_Some_iff)

lemma array_index_inj:
  "array_index len k = Some n \<Longrightarrow> array_index len a = Some n \<Longrightarrow> k = a"
  by (auto dest!: array_index_SomeD)

lemma array_index_length: "array_index len ''length'' = None"
  by (rule array_index_not_digits) (simp add: is_digit_def digit_of_def)

lemma get_prop_defined: "get_prop v k = Some c \<Longrightarrow> c \<noteq> JUndefined"
  by (cases v) (auto simp: defined_def split: option.splits json.splits if_splits)

lemma get_prop_prim: "\<not> isObject v \<Longrightarrow> get_prop v k = Some c \<Longrightarrow> \<not> isObject c"
  by (cases v) (auto split: option.splits if_splits)

lemma get_prop_set_same: "get_prop v k = Some c \<Longrightarrow> set_prop v k c = v"
proof (cases v)
  case (JObj kvs)
  assume "get_prop v k = Some c"
  with JObj have "map_of kvs k = Some c"
    by (auto simp: defined_def split: option.splits json.splits)
  then show ?thesis by (simp add: JObj update_triv)
next
  case (JArr xs)
  assume g: "get_prop v k = Some c"
  show ?thesis
  proof (cases "array_index (length xs) k")
    case None
    then show ?thesis by (simp add: JArr)
  next
    case (Some n)
    with g JArr have "xs ! n = c"
      by (auto simp: array_index_length js_index_def defined_def dest: array_index_SomeD
          split: if_splits json.splits)
    then show ?thesis by (auto simp: JArr Some)
  qed
qed simp_all

lemma get_prop_set_other:
  "k \<noteq> a \<Longrightarrow> get_prop (set_prop v k c') a = get_prop v a"
proof (cases v)
  case (JObj kvs)
  assume "k \<noteq> a"
  then show ?thesis by (simp add: JObj update_conv')
next
  case (JArr xs)
  assume ne: "k \<noteq> a"
  show ?thesis
  proof (cases "array_index (length xs) k")
    case None
    then show ?thesis by (simp add: JArr)
  next
    case (Some n)
    show ?thesis
    proof (cases "array_index (length xs) a")
      case None
      then show ?thesis by (simp add: JArr Some)
    next
      case (Some m)
      with \<open>array_index (length xs) k = Some n\<close> ne have "n \<noteq> m"
        using array_index_inj by blast
      then show ?thesis
        using Some \<open>array_index (length xs) k = Some n\<close>
        by (auto simp: JArr js_index_def dest: array_index_SomeD)
    qed
  qed
qed simp_all

lemma get_prop_set_this:
  "get_prop v k = Some c \<Longrightarrow> isObject c \<Longrightarrow> c' \<noteq> JUndefined \<Longrightarrow>
   get_prop (set_prop v k c') k = Some c'"
proof (cases v)
  case (JObj kvs)
  assume "c' \<noteq> JUndefined"
  then show ?thesis by (cases c') (simp_all add: JObj update_conv' defined_def)
next
  case (JArr xs)
  assume g: "get_prop v k = Some c" and np: "isObject c" and d: "c' \<noteq> JUndefined"
  from g np JArr have kl: "k \<noteq> ''length''" by auto
  with g JArr obtain n where n: "array_index (length xs) k = Some n"
    by (auto split: option.splits)
  then have "n < length xs" by (auto dest: array_index_SomeD)
  with n kl d show ?thesis
    by (cases c') (simp_all add: JArr js_index_def defined_def)
next
  case (JStr s)
  assume "get_prop v k = Some c" and "isObject c"
  with JStr show ?thesis by (auto split: option.splits if_splits)
qed simp_all

lemma get_prop_delete:
  "delete_prop v k = Inr v' \<Longrightarrow> get_prop v' a = (if a = k then None else get_prop v a)"
proof (cases v)
  case (JObj kvs)
  assume "delete_prop v k = Inr v'"
  with JObj show ?thesis by (auto simp: delete_conv' defined_def)
next
  case (JArr xs)
  assume d: "delete_prop v k = Inr v'"
  show ?thesis
  proof (cases "array_index (length xs) k")
    case None
    with d JArr show ?thesis by (auto split: if_splits)
  next
    case (Some n)
    then have nl: "n < length xs" by (auto dest: array_index_SomeD)
    from d JArr Some have v': "v' = JArr (xs[n := JUndefined])" and kl: "k \<noteq> ''length''"
      by (auto split: if_splits)
    show ?thesis
    proof (cases "a = k")
      case True
      with Some nl kl show ?thesis by (simp add: v' js_index_def defined_def)
    next
      case False
      show ?thesis
      proof (cases "array_index (length xs) a")
        case None
        then show ?thesis using False by (simp add: v' JArr)
      next
        case (Some m)
        with \<open>array_index (length xs) k = Some n\<close> False have "n \<noteq> m"
          using array_index_inj by blast
        then show ?thesis using Some False by (simp add: v' JArr js_index_def)
      qed
    qed
  qed
qed auto

lemma delete_prop_changes:
  "get_prop v k = Some c \<Longrightarrow> delete_prop v k = Inr v' \<Longrightarrow> v' \<noteq> v"
  using get_prop_delete [of v k v' k] by auto

subsection \<open>The shape of a walk's result\<close>

lemma deepRemoveEach_iff:
  "deepRemoveEach sub xs = Inr xs' \<longleftrightarrow>
   list_all2 (\<lambda>x x'. (x = JUndefined \<longrightarrow> x' = JUndefined)
                    \<and> (x \<noteq> JUndefined \<longrightarrow>
                         (\<exists>b. deepRemoveWalk sub x = Inr (b, x')
                             \<and> (b \<longrightarrow> (\<exists>n. Object_keys_length x' = Inr n))))) xs xs'"
proof (induction xs arbitrary: xs')
  case Nil
  then show ?case by auto
next
  case (Cons x xs)
  show ?case
  proof (cases xs')
    case Nil
    then show ?thesis by (auto split: sum.splits if_splits prod.splits)
  next
    case (Cons y ys)
    show ?thesis
    proof (cases "x = JUndefined")
      case True
      then show ?thesis
        using Cons.IH [of ys] by (auto simp: Cons split: sum.splits)
    next
      case False
      show ?thesis
      proof (cases "deepRemoveWalk sub x")
        case (Inl e)
        then show ?thesis using False by (simp add: Cons)
      next
        case (Inr r)
        obtain b x' where r: "r = (b, x')" by (cases r)
        show ?thesis
          using Cons.IH [of ys] False Inr r
          by (cases b; cases "Object_keys_length x'") (auto simp: Cons split: sum.splits)
      qed
    qed
  qed
qed

lemma delete_prop_kind:
  "delete_prop v k = Inr v' \<Longrightarrow>
   (v' = JUndefined \<longleftrightarrow> v = JUndefined) \<and> Array_isArray v' = Array_isArray v
   \<and> isObject v' = isObject v"
  by (cases v) (auto split: if_splits option.splits)

lemma set_prop_kind:
  "(set_prop v k c = JUndefined \<longleftrightarrow> v = JUndefined)
   \<and> Array_isArray (set_prop v k c) = Array_isArray v
   \<and> isObject (set_prop v k c) = isObject v"
  by (cases v) (auto split: option.splits)

lemma walk_kind:
  "deepRemoveWalk segs v = Inr (b, v') \<Longrightarrow>
   (v' = JUndefined \<longleftrightarrow> v = JUndefined) \<and> Array_isArray v' = Array_isArray v
   \<and> isObject v' = isObject v"
proof (cases segs)
  case Nil
  then show ?thesis if "deepRemoveWalk segs v = Inr (b, v')" using that by simp
next
  case (Cons k rest)
  assume w: "deepRemoveWalk segs v = Inr (b, v')"
  show ?thesis
  proof (cases rest)
    case Nil
    with w Cons show ?thesis
      by (auto split: option.splits sum.splits if_splits dest: delete_prop_kind)
  next
    case (Cons k' ks)
    with w \<open>segs = k # rest\<close> show ?thesis
      using set_prop_kind [of v k]
      by (cases v) (auto split: option.splits sum.splits if_splits prod.splits)
  qed
qed

lemma walk_primitive:
  "\<not> isObject v \<Longrightarrow> deepRemoveWalk segs v = Inr (b, v') \<Longrightarrow> own_names segs \<Longrightarrow>
   v' = v \<and> \<not> b"
proof (induction segs arbitrary: v v' b rule: induct_list012)
  case 1
  then show ?case by simp
next
  case (2 k)
  then show ?case by (cases v) (auto split: option.splits sum.splits if_splits)
next
  case (3 k k' ks)
  from "3.prems" have na: "\<not> Array_isArray v" by (cases v) auto
  from "3.prems"(3) have nk: "\<not> names_inherited_member k" and own': "own_names (k' # ks)"
    by simp_all
  show ?case
  proof (cases "get_prop v k")
    case None
    with "3.prems" na show ?thesis by simp
  next
    case (Some c)
    with "3.prems" have pc: "\<not> isObject c" by (auto dest: get_prop_prim)
    from "3.prems"(2) Some na nk obtain c' where
      w: "deepRemoveWalk (k' # ks) c = Inr (b, c')" and v': "v' = set_prop v k c'"
      by (auto split: sum.splits prod.splits)
    from "3.IH"(2) [OF pc w own'] have "c' = c" and "\<not> b" by auto
    with v' Some show ?thesis by (simp add: get_prop_set_same)
  qed
qed

lemma walk_quiet_unchanged:
  "deepRemoveWalk segs v = Inr (False, v') \<Longrightarrow> v' = v"
proof (induction segs arbitrary: v v' rule: induct_list012)
  case 1
  then show ?case by simp
next
  case (2 k)
  then show ?case by (auto split: option.splits sum.splits if_splits)
next
  case (3 k k' ks)
  show ?case
  proof (cases "k = ARRAY_INDEX_WILDCARD \<and> Array_isArray v")
    case True
    with "3.prems" show ?thesis by (auto split: sum.splits)
  next
    case False
    show ?thesis
    proof (cases "get_prop v k")
      case None
      with "3.prems" False show ?thesis by (auto split: if_splits)
    next
      case (Some c)
      with "3.prems" False obtain c' where
        w: "deepRemoveWalk (k' # ks) c = Inr (False, c')" and v': "v' = set_prop v k c'"
        by (auto split: sum.splits prod.splits)
      from "3.IH"(2) [OF w] have "c' = c" .
      with v' Some show ?thesis by (simp add: get_prop_set_same)
    qed
  qed
qed

lemma walk_checked_keys:
  "deepRemoveWalk segs v = Inr (True, v') \<Longrightarrow> own_names segs \<Longrightarrow>
   \<exists>n. Object_keys_length v' = Inr n"
proof -
  assume w: "deepRemoveWalk segs v = Inr (True, v')" and own: "own_names segs"
  then have "isObject v" using walk_primitive by blast
  with walk_kind [OF w] have "isObject v'" by simp
  then show ?thesis by (cases v') auto
qed

lemma list012_cases [case_names Nil One Two]:
  "(xs = [] \<Longrightarrow> P) \<Longrightarrow> (\<And>x. xs = [x] \<Longrightarrow> P) \<Longrightarrow> (\<And>x y zs. xs = x # y # zs \<Longrightarrow> P) \<Longrightarrow> P"
  by (cases xs; cases "tl xs") auto

lemma get_prop_array_Some:
  "get_prop (JArr xs) a = Some c \<Longrightarrow>
   (a = ''length'' \<and> c = JNum (of_nat (length xs)))
   \<or> (\<exists>n. a \<noteq> ''length'' \<and> array_index (length xs) a = Some n \<and> n < length xs
          \<and> xs ! n = c \<and> c \<noteq> JUndefined)"
  by (auto simp: js_index_def defined_def dest: array_index_SomeD
      split: if_splits option.splits json.splits)

lemma get_prop_array_None:
  "get_prop (JArr xs) a = None \<Longrightarrow>
   a \<noteq> ''length'' \<and> (array_index (length xs) a = None
      \<or> (\<exists>n. array_index (length xs) a = Some n \<and> n < length xs \<and> xs ! n = JUndefined))"
  by (auto simp: js_index_def defined_def dest: array_index_SomeD
      split: if_splits option.splits json.splits)

text \<open>What one walk can do to the elements of an array.\<close>

lemma walk_array_elements:
  assumes "deepRemoveWalk B (JArr xs) = Inr (bB, v')" and "own_names B"
  shows "\<exists>xs'. v' = JArr xs' \<and> length xs' = length xs \<and>
           (\<forall>i<length xs. xs' ! i = xs ! i \<or> xs' ! i = JUndefined
               \<or> (xs ! i \<noteq> JUndefined \<and> xs' ! i \<noteq> JUndefined
                    \<and> (\<exists>B' b. own_names B' \<and> deepRemoveWalk B' (xs ! i) = Inr (b, xs' ! i))))"
proof (cases B rule: list012_cases)
  case Nil
  with assms show ?thesis by auto
next
  case (One k)
  show ?thesis
  proof (cases "get_prop (JArr xs) k")
    case None
    with assms One show ?thesis by auto
  next
    case (Some c)
    with assms One have d: "delete_prop (JArr xs) k = Inr v'"
      by (auto split: sum.splits)
    show ?thesis
    proof (cases "array_index (length xs) k")
      case None
      with d show ?thesis by (auto split: if_splits)
    next
      case (Some n)
      then have "n < length xs" by (auto dest: array_index_SomeD)
      moreover from d Some have "v' = JArr (xs[n := JUndefined])" by (auto split: if_splits)
      ultimately show ?thesis by (auto simp: nth_list_update)
    qed
  qed
next
  case (Two k k' ks)
  show ?thesis
  proof (cases "k = ARRAY_INDEX_WILDCARD")
    case True
    with assms Two obtain xs' where e: "deepRemoveEach (k' # ks) xs = Inr xs'" and v': "v' = JArr xs'"
      by (auto split: sum.splits)
    from assms(2) Two have own': "own_names (k' # ks)" by simp
    from e have r: "list_all2 (\<lambda>x x'. (x = JUndefined \<longrightarrow> x' = JUndefined)
                    \<and> (x \<noteq> JUndefined \<longrightarrow>
                         (\<exists>b. deepRemoveWalk (k' # ks) x = Inr (b, x')
                             \<and> (b \<longrightarrow> (\<exists>n. Object_keys_length x' = Inr n))))) xs xs'"
      by (simp only: deepRemoveEach_iff)
    then have len: "length xs' = length xs" by (simp add: list_all2_lengthD)
    have "xs' ! i = xs ! i \<or> xs' ! i = JUndefined
               \<or> (xs ! i \<noteq> JUndefined \<and> xs' ! i \<noteq> JUndefined
                    \<and> (\<exists>B' b. own_names B' \<and> deepRemoveWalk B' (xs ! i) = Inr (b, xs' ! i)))"
      if "i < length xs" for i
    proof (cases "xs ! i = JUndefined")
      case True
      with r that show ?thesis by (auto simp: list_all2_conv_all_nth)
    next
      case False
      with r that obtain b where w: "deepRemoveWalk (k' # ks) (xs ! i) = Inr (b, xs' ! i)"
        by (auto simp: list_all2_conv_all_nth)
      with False walk_kind [OF w] own' show ?thesis by blast
    qed
    with v' len show ?thesis by blast
  next
    case False
    show ?thesis
    proof (cases "get_prop (JArr xs) k")
      case None
      with assms Two False show ?thesis by auto
    next
      case (Some c)
      with assms Two False obtain c' where
        w: "deepRemoveWalk (k' # ks) c = Inr (bB, c')" and v': "v' = set_prop (JArr xs) k c'"
        by (auto split: sum.splits prod.splits)
      from assms(2) Two have own': "own_names (k' # ks)" by simp
      from get_prop_array_Some [OF Some] show ?thesis
      proof
        assume "k = ''length'' \<and> c = JNum (of_nat (length xs))"
        then show ?thesis using v' by (simp add: array_index_length)
      next
        assume "\<exists>n. k \<noteq> ''length'' \<and> array_index (length xs) k = Some n \<and> n < length xs
          \<and> xs ! n = c \<and> c \<noteq> JUndefined"
        then obtain n where n: "array_index (length xs) k = Some n" "n < length xs"
          "xs ! n = c" "c \<noteq> JUndefined" by blast
        from walk_kind [OF w] n have c': "c' \<noteq> JUndefined" by simp
        have "v' = JArr (xs[n := c'])" using v' n by simp
        moreover have "xs[n := c'] ! i = xs ! i \<or> xs[n := c'] ! i = JUndefined
               \<or> (xs ! i \<noteq> JUndefined \<and> xs[n := c'] ! i \<noteq> JUndefined
                    \<and> (\<exists>B' b. own_names B' \<and> deepRemoveWalk B' (xs ! i) = Inr (b, xs[n := c'] ! i)))"
          if "i < length xs" for i
          using that n c' w own' by (cases "i = n") auto
        ultimately show ?thesis by auto
      qed
    qed
  qed
qed

text \<open>A property that a walk finds undefined stays undefined after any other walk.\<close>

lemma walk_keeps_undefined:
  assumes "get_prop v a = None" and "deepRemoveWalk B v = Inr (bB, v')" and "own_names B"
  shows "get_prop v' a = None"
proof (cases "Array_isArray v")
  case True
  then obtain xs where v: "v = JArr xs" by (cases v) auto
  from walk_array_elements [OF assms(2) [unfolded v] assms(3)] obtain xs' where
    v': "v' = JArr xs'" and len: "length xs' = length xs" and
    el: "\<forall>i<length xs. xs' ! i = xs ! i \<or> xs' ! i = JUndefined
               \<or> (xs ! i \<noteq> JUndefined \<and> xs' ! i \<noteq> JUndefined
                    \<and> (\<exists>B' b. own_names B' \<and> deepRemoveWalk B' (xs ! i) = Inr (b, xs' ! i)))"
    by blast
  from get_prop_array_None [OF assms(1) [unfolded v]] el len show ?thesis
    by (auto simp: v' js_index_def defined_def)
next
  case False
  show ?thesis
  proof (cases B rule: list012_cases)
    case Nil
    with assms show ?thesis by auto
  next
    case (One k)
    show ?thesis
    proof (cases "get_prop v k")
      case None
      with assms One show ?thesis by auto
    next
      case (Some c)
      with assms One have "delete_prop v k = Inr v'" by (auto split: sum.splits)
      from get_prop_delete [OF this, of a] assms(1) show ?thesis by auto
    qed
  next
    case (Two k k' ks)
    show ?thesis
    proof (cases "get_prop v k")
      case None
      with assms Two False show ?thesis by auto
    next
      case (Some c)
      with assms Two False obtain c' where v': "v' = set_prop v k c'"
        by (auto split: sum.splits prod.splits)
      from Some assms(1) have "k \<noteq> a" by auto
      then show ?thesis using assms(1) by (simp add: v' get_prop_set_other)
    qed
  qed
qed

text \<open>A property that is defined is, after another walk, gone, the same, or walked.\<close>

lemma walk_keeps_defined:
  assumes "get_prop v a = Some c" and "deepRemoveWalk B v = Inr (bB, v')" and "own_names B"
  shows "get_prop v' a = None \<or> get_prop v' a = Some c
         \<or> (\<exists>B' b c'. own_names B' \<and> deepRemoveWalk B' c = Inr (b, c') \<and> get_prop v' a = Some c')"
proof (cases "Array_isArray v")
  case True
  then obtain xs where v: "v = JArr xs" by (cases v) auto
  from walk_array_elements [OF assms(2) [unfolded v] assms(3)] obtain xs' where
    v': "v' = JArr xs'" and len: "length xs' = length xs" and
    el: "\<forall>i<length xs. xs' ! i = xs ! i \<or> xs' ! i = JUndefined
               \<or> (xs ! i \<noteq> JUndefined \<and> xs' ! i \<noteq> JUndefined
                    \<and> (\<exists>B' b. own_names B' \<and> deepRemoveWalk B' (xs ! i) = Inr (b, xs' ! i)))"
    by blast
  from get_prop_array_Some [OF assms(1) [unfolded v]] show ?thesis
  proof
    assume "a = ''length'' \<and> c = JNum (of_nat (length xs))"
    then show ?thesis by (simp add: v' len)
  next
    assume "\<exists>n. a \<noteq> ''length'' \<and> array_index (length xs) a = Some n \<and> n < length xs
          \<and> xs ! n = c \<and> c \<noteq> JUndefined"
    then obtain n where n: "a \<noteq> ''length''" "array_index (length xs) a = Some n" "n < length xs"
          "xs ! n = c" "c \<noteq> JUndefined" by blast
    from n len have g: "get_prop v' a = defined (Some (xs' ! n))"
      by (simp add: v' js_index_def)
    from el n have "xs' ! n = c \<or> xs' ! n = JUndefined
        \<or> (xs' ! n \<noteq> JUndefined \<and> (\<exists>B' b. own_names B' \<and> deepRemoveWalk B' c = Inr (b, xs' ! n)))"
      by auto
    then show ?thesis
      using g n(5) by (auto simp: defined_def split: json.splits)
  qed
next
  case False
  show ?thesis
  proof (cases B rule: list012_cases)
    case Nil
    with assms show ?thesis by auto
  next
    case (One k)
    show ?thesis
    proof (cases "get_prop v k")
      case None
      with assms One show ?thesis by auto
    next
      case (Some ck)
      with assms One have "delete_prop v k = Inr v'" by (auto split: sum.splits)
      from get_prop_delete [OF this, of a] assms(1) show ?thesis by auto
    qed
  next
    case (Two k k' ks)
    show ?thesis
    proof (cases "get_prop v k")
      case None
      with assms Two False show ?thesis by auto
    next
      case (Some ck)
      with assms Two False obtain c' where
        w: "deepRemoveWalk (k' # ks) ck = Inr (bB, c')" and v': "v' = set_prop v k c'"
        by (auto split: sum.splits prod.splits)
      show ?thesis
      proof (cases "k = a")
        case ne: False
        then show ?thesis using assms(1) by (simp add: v' get_prop_set_other)
      next
        case True
        with Some assms(1) have ck: "ck = c" by simp
        show ?thesis
        proof (cases "isObject c")
          case False
          from assms(3) Two have "own_names (k' # ks)" by simp
          with False walk_primitive [OF _ w] ck have "c' = c" by simp
          with v' True assms(1) show ?thesis by (simp add: get_prop_set_same)
        next
          case io: True
          from walk_kind [OF w] get_prop_defined [OF Some] have "c' \<noteq> JUndefined" by simp
          from assms(3) Two have "own_names (k' # ks)" by simp
          with get_prop_set_this [OF assms(1) io \<open>c' \<noteq> JUndefined\<close>] w ck True v'
          show ?thesis by auto
        qed
      qed
    qed
  qed
qed

subsection \<open>Walks that find nothing to remove\<close>

lemma walk_lookup_stable:
  assumes "\<not> (a = ARRAY_INDEX_WILDCARD \<and> Array_isArray v)"
    and "get_prop v a = Some c" and "deepRemoveWalk (a' # as) c = Inr (b, c)"
  shows "deepRemoveWalk (a # a' # as) v = Inr (b, v)"
  using assms by (auto simp: get_prop_set_same)

lemma walk_lookup_quiet:
  assumes "\<not> (a = ARRAY_INDEX_WILDCARD \<and> Array_isArray v)" and "get_prop v a = None"
    and "\<not> names_inherited_member a"
  shows "deepRemoveWalk (a # a' # as) v = Inr (False, v)"
  using assms by auto

lemma each_stable_intro:
  assumes "\<And>i. i < length xs \<Longrightarrow> xs ! i \<noteq> JUndefined \<Longrightarrow>
             \<exists>b. deepRemoveWalk sub (xs ! i) = Inr (b, xs ! i)"
    and "own_names sub"
  shows "deepRemoveEach sub xs = Inr xs"
proof -
  have "(\<exists>b. deepRemoveWalk sub (xs ! i) = Inr (b, xs ! i)
            \<and> (b \<longrightarrow> (\<exists>n. Object_keys_length (xs ! i) = Inr n)))"
    if "i < length xs" "xs ! i \<noteq> JUndefined" for i
  proof -
    from assms(1) [OF that] obtain b where w: "deepRemoveWalk sub (xs ! i) = Inr (b, xs ! i)"
      by blast
    then have "b \<longrightarrow> (\<exists>n. Object_keys_length (xs ! i) = Inr n)"
      using assms(2) by (cases b) (auto dest: walk_checked_keys)
    with w show ?thesis by blast
  qed
  then show ?thesis
    by (simp only: deepRemoveEach_iff list_all2_conv_all_nth) auto
qed

lemma each_stable_elim:
  assumes "deepRemoveEach sub xs = Inr xs'" and "i < length xs" and "xs ! i \<noteq> JUndefined"
  shows "\<exists>b. deepRemoveWalk sub (xs ! i) = Inr (b, xs' ! i)"
  using assms by (simp only: deepRemoveEach_iff list_all2_conv_all_nth) auto

lemma each_length:
  assumes "deepRemoveEach sub xs = Inr xs'"
  shows "length xs' = length xs"
proof -
  from assms have "list_all2 (\<lambda>x x'. (x = JUndefined \<longrightarrow> x' = JUndefined)
                    \<and> (x \<noteq> JUndefined \<longrightarrow>
                         (\<exists>b. deepRemoveWalk sub x = Inr (b, x')
                             \<and> (b \<longrightarrow> (\<exists>n. Object_keys_length x' = Inr n))))) xs xs'"
    by (simp only: deepRemoveEach_iff)
  then show ?thesis by (simp add: list_all2_lengthD)
qed

lemma each_hole:
  assumes "deepRemoveEach sub xs = Inr xs'" and "i < length xs" and "xs ! i = JUndefined"
  shows "xs' ! i = JUndefined"
  using assms by (simp only: deepRemoveEach_iff list_all2_conv_all_nth)

text \<open>After a walk, the same walk finds nothing more to remove.\<close>

lemma walk_self_stable:
  "deepRemoveWalk A v = Inr (b, v') \<Longrightarrow> own_names A \<Longrightarrow>
   \<exists>b'. deepRemoveWalk A v' = Inr (b', v') \<and> (b' \<longrightarrow> b)"
proof (induction A arbitrary: v v' b rule: induct_list012)
  case 1
  then show ?case by auto
next
  case (2 a)
  show ?case
  proof (cases "get_prop v a")
    case None
    with "2.prems" show ?thesis by auto
  next
    case (Some c)
    with "2.prems" have d: "delete_prop v a = Inr v'" by (auto split: sum.splits)
    from get_prop_delete [OF d, of a] "2.prems"(2) show ?thesis by auto
  qed
next
  case (3 a a' as)
  from "3.prems"(2) have na: "\<not> names_inherited_member a" and own': "own_names (a' # as)"
    by simp_all
  show ?case
  proof (cases "a = ARRAY_INDEX_WILDCARD \<and> Array_isArray v")
    case True
    then obtain xs where v: "v = JArr xs" by (cases v) auto
    from "3.prems" True v obtain xs' where
      e: "deepRemoveEach (a' # as) xs = Inr xs'" and v': "v' = JArr xs'" and b: "b"
      by (auto split: sum.splits)
    have len: "length xs' = length xs" using e by (rule each_length)
    have "deepRemoveEach (a' # as) xs' = Inr xs'"
    proof (rule each_stable_intro [OF _ own'])
      fix i assume i: "i < length xs'" and d: "xs' ! i \<noteq> JUndefined"
      from i len have i': "i < length xs" by simp
      from each_hole [OF e i'] d have "xs ! i \<noteq> JUndefined" by blast
      from each_stable_elim [OF e i' this] obtain b0 where
        "deepRemoveWalk (a' # as) (xs ! i) = Inr (b0, xs' ! i)" by blast
      from "3.IH"(2) [OF this own']
      show "\<exists>b. deepRemoveWalk (a' # as) (xs' ! i) = Inr (b, xs' ! i)" by blast
    qed
    with True v' b show ?thesis by auto
  next
    case False
    from walk_kind [OF "3.prems"(1)] False
    have False': "\<not> (a = ARRAY_INDEX_WILDCARD \<and> Array_isArray v')" by simp
    show ?thesis
    proof (cases "get_prop v a")
      case None
      with "3.prems" False have "v' = v" "\<not> b" by auto
      with None False na show ?thesis by auto
    next
      case (Some c)
      with "3.prems" False obtain c' where
        w: "deepRemoveWalk (a' # as) c = Inr (b, c')" and v': "v' = set_prop v a c'"
        by (auto split: sum.splits prod.splits)
      show ?thesis
      proof (cases "isObject c")
        case False
        from walk_primitive [OF False w own'] have "c' = c" "\<not> b" by auto
        with v' Some have "v' = v" by (simp add: get_prop_set_same)
        with "3.prems" show ?thesis by blast
      next
        case True
        from walk_kind [OF w] get_prop_defined [OF Some] have "c' \<noteq> JUndefined" by simp
        from get_prop_set_this [OF Some True this] v'
        have g: "get_prop v' a = Some c'" by simp
        from "3.IH"(2) [OF w own'] obtain b' where
          s: "deepRemoveWalk (a' # as) c' = Inr (b', c')" and bb: "b' \<longrightarrow> b" by blast
        from walk_lookup_stable [OF False' g s] bb show ?thesis by blast
      qed
    qed
  qed
qed

text \<open>A walk that finds nothing to remove still finds nothing after any other walk.\<close>

lemma walk_stable_preserved:
  "deepRemoveWalk A v = Inr (bA, v) \<Longrightarrow> deepRemoveWalk B v = Inr (bB, v') \<Longrightarrow>
   own_names A \<Longrightarrow> own_names B \<Longrightarrow>
   \<exists>bA'. deepRemoveWalk A v' = Inr (bA', v') \<and> (bA' \<longrightarrow> bA)"
proof (induction A arbitrary: v v' B bA bB rule: induct_list012)
  case 1
  then show ?case by auto
next
  case (2 a)
  have "get_prop v a = None"
  proof (cases "get_prop v a")
    case (Some c)
    with "2.prems"(1) have "delete_prop v a = Inr v" by (auto split: sum.splits)
    with delete_prop_changes [OF Some] show ?thesis by blast
  qed simp
  from walk_keeps_undefined [OF this "2.prems"(2) "2.prems"(4)] "2.prems"(3)
  show ?case by auto
next
  case (3 a a' as)
  from "3.prems"(3) have na: "\<not> names_inherited_member a" and own': "own_names (a' # as)"
    by simp_all
  show ?case
  proof (cases "a = ARRAY_INDEX_WILDCARD \<and> Array_isArray v")
    case True
    then obtain xs where v: "v = JArr xs" by (cases v) auto
    from "3.prems"(1) True v have e: "deepRemoveEach (a' # as) xs = Inr xs" and bA: "bA"
      by (auto split: sum.splits)
    from walk_array_elements [OF "3.prems"(2) [unfolded v] "3.prems"(4)] obtain ys where
      v': "v' = JArr ys" and len: "length ys = length xs" and
      el: "\<forall>i<length xs. ys ! i = xs ! i \<or> ys ! i = JUndefined
               \<or> (xs ! i \<noteq> JUndefined \<and> ys ! i \<noteq> JUndefined
                    \<and> (\<exists>B' b. own_names B' \<and> deepRemoveWalk B' (xs ! i) = Inr (b, ys ! i)))"
      by blast
    have "deepRemoveEach (a' # as) ys = Inr ys"
    proof (rule each_stable_intro [OF _ own'])
      fix i assume i: "i < length ys" and d: "ys ! i \<noteq> JUndefined"
      from i len have i': "i < length xs" by simp
      from el i' d consider "ys ! i = xs ! i"
        | B' b where "xs ! i \<noteq> JUndefined" "own_names B'"
            "deepRemoveWalk B' (xs ! i) = Inr (b, ys ! i)"
        by blast
      then show "\<exists>b. deepRemoveWalk (a' # as) (ys ! i) = Inr (b, ys ! i)"
      proof cases
        case 1
        with d each_stable_elim [OF e i'] show ?thesis by simp
      next
        case 2
        from each_stable_elim [OF e i' 2(1)] obtain b0 where
          "deepRemoveWalk (a' # as) (xs ! i) = Inr (b0, xs ! i)" by blast
        from "3.IH"(2) [OF this 2(3) own' 2(2)] show ?thesis by blast
      qed
    qed
    with True v' bA show ?thesis by auto
  next
    case False
    from walk_kind [OF "3.prems"(2)] False
    have False': "\<not> (a = ARRAY_INDEX_WILDCARD \<and> Array_isArray v')" by simp
    show ?thesis
    proof (cases "get_prop v a")
      case None
      from walk_keeps_undefined [OF None "3.prems"(2) "3.prems"(4)] False' na
      show ?thesis by auto
    next
      case (Some c)
      with "3.prems"(1) False obtain c' where
        w: "deepRemoveWalk (a' # as) c = Inr (bA, c')" and sv: "set_prop v a c' = v"
        by (auto split: sum.splits prod.splits)
      have "c' = c"
      proof (cases "isObject c")
        case False
        from walk_primitive [OF False w own'] show ?thesis by simp
      next
        case True
        from walk_kind [OF w] get_prop_defined [OF Some] have "c' \<noteq> JUndefined" by simp
        from get_prop_set_this [OF Some True this] sv Some show ?thesis by simp
      qed
      with w have s: "deepRemoveWalk (a' # as) c = Inr (bA, c)" by simp
      from walk_keeps_defined [OF Some "3.prems"(2) "3.prems"(4)]
      consider "get_prop v' a = None" | "get_prop v' a = Some c"
        | B' b c'' where "own_names B'" "deepRemoveWalk B' c = Inr (b, c'')"
            "get_prop v' a = Some c''"
        by auto
      then show ?thesis
      proof cases
        case 1
        with False' na show ?thesis by auto
      next
        case 2
        from walk_lookup_stable [OF False' 2 s] show ?thesis by blast
      next
        case 3
        from "3.IH"(2) [OF s 3(2) own' 3(1)] obtain bA' where
          s': "deepRemoveWalk (a' # as) c'' = Inr (bA', c'')" and bb: "bA' \<longrightarrow> bA" by blast
        from walk_lookup_stable [OF False' 3(3) s'] bb show ?thesis by blast
      qed
    qed
  qed
qed

subsection \<open>Operations and operation lists\<close>

text \<open>\<open>deepRemovePath\<close> in terms of the walk over the operation's value.\<close>

lemma deepRemovePath_cases:
  assumes "deepRemovePath patch ex = Inr (keep, patch')"
  obtains (idle) "patch' = patch" "keep"
      "\<not> isPathContained (sanitizeEmptyPath (getArrayFromPath (op_path patch))) ex
       \<or> op_value patch = None"
  | (walk) v v' b where
      "isPathContained (sanitizeEmptyPath (getArrayFromPath (op_path patch))) ex"
      "op_value patch = Some v" "patch' = patch\<lparr>op_value := Some v'\<rparr>"
      "deepRemoveWalk
         (drop (min (length (sanitizeEmptyPath (getArrayFromPath (op_path patch))))
                    (length ex - 1)) ex) v = Inr (b, v')"
      "b \<longrightarrow> (\<exists>n. Object_keys_length v' = Inr n \<and> keep = (n \<noteq> 0))"
      "\<not> b \<longrightarrow> keep"
  using assms
  by (auto simp: deepRemovePath_def Let_def split: if_splits option.splits sum.splits prod.splits)

lemma deepRemovePath_walk:
  assumes "isPathContained (sanitizeEmptyPath (getArrayFromPath (op_path patch))) ex"
    and "op_value patch = Some v"
    and "deepRemoveWalk
         (drop (min (length (sanitizeEmptyPath (getArrayFromPath (op_path patch))))
                    (length ex - 1)) ex) v = Inr (b, v)"
    and "b \<longrightarrow> (\<exists>n. Object_keys_length v = Inr n \<and> n \<noteq> 0)"
  shows "deepRemovePath patch ex = Inr (True, patch)"
  using assms by (cases b) (auto simp: deepRemovePath_def Let_def)

lemma deepRemovePath_idle:
  assumes "\<not> isPathContained (sanitizeEmptyPath (getArrayFromPath (op_path patch))) ex
       \<or> op_value patch = None"
  shows "deepRemovePath patch ex = Inr (True, patch)"
  using assms by (auto simp: deepRemovePath_def Let_def)

text \<open>A kept operation is settled for the pattern that pruned it.\<close>

lemma deepRemovePath_settles:
  assumes "deepRemovePath patch ex = Inr (True, patch')" and "own_names ex"
  shows "deepRemovePath patch' ex = Inr (True, patch')"
  using assms(1)
proof (cases rule: deepRemovePath_cases)
  case idle
  with assms show ?thesis by simp
next
  case (walk v v' b)
  from walk_self_stable [OF walk(4) own_names_drop [OF assms(2)]] obtain b' where
    s: "deepRemoveWalk
         (drop (min (length (sanitizeEmptyPath (getArrayFromPath (op_path patch))))
                    (length ex - 1)) ex) v' = Inr (b', v')" and bb: "b' \<longrightarrow> b" by blast
  have k: "b' \<longrightarrow> (\<exists>n. Object_keys_length v' = Inr n \<and> n \<noteq> 0)"
    using bb walk(5) by auto
  have "deepRemovePath patch' ex = Inr (True, patch')"
    by (rule deepRemovePath_walk [where v = v' and b = b'])
       (use walk s k in \<open>simp_all\<close>)
  then show ?thesis .
qed

text \<open>A settled operation stays settled when another pattern prunes it and keeps it.\<close>

lemma deepRemovePath_settled_preserved:
  assumes "deepRemovePath patch ex = Inr (True, patch)"
    and "deepRemovePath patch other = Inr (True, patch')"
    and "own_names ex" and "own_names other"
  shows "deepRemovePath patch' ex = Inr (True, patch')"
  using assms(2)
proof (cases rule: deepRemovePath_cases)
  case idle
  with assms(1) show ?thesis by simp
next
  case other: (walk v v2 b2)
  have path: "op_path patch' = op_path patch" using other(3) by simp
  from assms(1) show ?thesis
  proof (cases rule: deepRemovePath_cases)
    case idle
    with other have "\<not> isPathContained (sanitizeEmptyPath (getArrayFromPath (op_path patch'))) ex"
      by (simp add: path)
    then show ?thesis by (simp add: deepRemovePath_idle)
  next
    case (walk w w' b)
    from walk(2) other(2) have wv: "w = v" by simp
    from walk(3) walk(2) have "w' = w"
      by (metis PatchOperation.select_convs(3) PatchOperation.surjective
          PatchOperation.update_convs(3) option.inject)
    with walk(4) wv have st: "deepRemoveWalk
         (drop (min (length (sanitizeEmptyPath (getArrayFromPath (op_path patch))))
                    (length ex - 1)) ex) v = Inr (b, v)" by simp
    from walk_stable_preserved [OF st other(4) own_names_drop [OF assms(3)]
        own_names_drop [OF assms(4)]] obtain b' where
      s: "deepRemoveWalk
         (drop (min (length (sanitizeEmptyPath (getArrayFromPath (op_path patch))))
                    (length ex - 1)) ex) v2 = Inr (b', v2)" and bb: "b' \<longrightarrow> b" by blast
    have k: "b' \<longrightarrow> (\<exists>n. Object_keys_length v2 = Inr n \<and> n \<noteq> 0)"
    proof
      assume b'
      with bb have b by simp
      with walk(5) \<open>w' = w\<close> wv have kv: "\<exists>n. Object_keys_length v = Inr n \<and> n \<noteq> 0" by simp
      show "\<exists>n. Object_keys_length v2 = Inr n \<and> n \<noteq> 0"
      proof (cases b2)
        case True
        with other(5) show ?thesis by simp
      next
        case False
        with other(4) have "v2 = v" by (auto dest: walk_quiet_unchanged)
        with kv show ?thesis by simp
      qed
    qed
    show ?thesis
      by (rule deepRemovePath_walk [where v = v2 and b = b'])
         (use walk other s k in \<open>simp_all\<close>)
  qed
qed

lemma deepRemoveEvery_settled_preserved:
  "deepRemovePath patch ex = Inr (True, patch) \<Longrightarrow>
   deepRemoveEvery rest patch = Inr (True, patch') \<Longrightarrow>
   own_names ex \<Longrightarrow> \<forall>other \<in> set rest. own_names other \<Longrightarrow>
   deepRemovePath patch' ex = Inr (True, patch')"
proof (induction rest arbitrary: patch)
  case Nil
  then show ?case by simp
next
  case (Cons other rest)
  from Cons.prems(2) obtain p1 where
    1: "deepRemovePath patch other = Inr (True, p1)" and
    2: "deepRemoveEvery rest p1 = Inr (True, patch')"
    by (auto split: sum.splits prod.splits if_splits)
  from Cons.prems(4) have oo: "own_names other" and orest: "\<forall>other \<in> set rest. own_names other"
    by simp_all
  from deepRemovePath_settled_preserved [OF Cons.prems(1) 1 Cons.prems(3) oo]
  have "deepRemovePath p1 ex = Inr (True, p1)" .
  from Cons.IH [OF this 2 Cons.prems(3) orest] show ?case .
qed

lemma deepRemoveEvery_all_settled:
  "deepRemoveEvery exs patch = Inr (True, patch') \<Longrightarrow> \<forall>ex \<in> set exs. own_names ex \<Longrightarrow>
   \<forall>ex \<in> set exs. deepRemovePath patch' ex = Inr (True, patch')"
proof (induction exs arbitrary: patch)
  case Nil
  then show ?case by simp
next
  case (Cons ex rest)
  from Cons.prems(1) obtain p1 where
    1: "deepRemovePath patch ex = Inr (True, p1)" and
    2: "deepRemoveEvery rest p1 = Inr (True, patch')"
    by (auto split: sum.splits prod.splits if_splits)
  from Cons.prems(2) have oe: "own_names ex" and orest: "\<forall>ex \<in> set rest. own_names ex"
    by simp_all
  from deepRemoveEvery_settled_preserved [OF deepRemovePath_settles [OF 1 oe] 2 oe orest]
    Cons.IH [OF 2 orest]
  show ?case by simp
qed

lemma deepRemoveEvery_settled:
  "\<forall>ex \<in> set exs. deepRemovePath patch ex = Inr (True, patch) \<Longrightarrow>
   deepRemoveEvery exs patch = Inr (True, patch)"
  by (induction exs) simp_all

lemma deepRemovePath_path:
  "deepRemovePath patch ex = Inr (keep, patch') \<Longrightarrow> op_path patch' = op_path patch"
  by (erule deepRemovePath_cases) simp_all

lemma deepRemoveEvery_path:
  "deepRemoveEvery exs patch = Inr (keep, patch') \<Longrightarrow> op_path patch' = op_path patch"
proof (induction exs arbitrary: patch)
  case Nil
  then show ?case by simp
next
  case (Cons ex rest)
  then show ?case
    by (auto split: sum.splits prod.splits if_splits dest: deepRemovePath_path)
qed

lemma keepOperation_idem:
  assumes "keepOperation exs patch = Inr (True, patch')" and "\<forall>ex \<in> set exs. own_names ex"
  shows "keepOperation exs patch' = Inr (True, patch')"
proof -
  from assms(1) have nc: "\<not> list_ex (\<lambda>exclude. isPathContained exclude (getArrayFromPath (op_path patch))) exs"
    and e: "deepRemoveEvery exs patch = Inr (True, patch')"
    by (auto simp: keepOperation_def Let_def split: if_splits)
  from deepRemoveEvery_path [OF e] have p: "op_path patch' = op_path patch" .
  from deepRemoveEvery_settled [OF deepRemoveEvery_all_settled [OF e assms(2)]] nc p
  show ?thesis by (simp add: keepOperation_def)
qed

lemma filterOperations_idem:
  "filterOperations exs operations = Inr operations' \<Longrightarrow> \<forall>ex \<in> set exs. own_names ex \<Longrightarrow>
   filterOperations exs operations' = Inr operations'"
proof (induction operations arbitrary: operations')
  case Nil
  then show ?case by simp
next
  case (Cons patch operations)
  from Cons.prems(1) obtain keep patch' rest where
    k: "keepOperation exs patch = Inr (keep, patch')" and
    r: "filterOperations exs operations = Inr rest" and
    o: "operations' = (if keep then patch' # rest else rest)"
    by (auto split: sum.splits prod.splits)
  from Cons.IH [OF r Cons.prems(2)] have ir: "filterOperations exs rest = Inr rest" .
  show ?case
  proof (cases keep)
    case True
    with k have "keepOperation exs patch = Inr (True, patch')" by simp
    then have "keepOperation exs patch' = Inr (True, patch')"
      using Cons.prems(2) by (rule keepOperation_idem)
    with ir o True show ?thesis by simp
  next
    case False
    with ir o show ?thesis by simp
  qed
qed

text \<open>
  Away from inherited members the filter is idempotent: when no segment of an exclude
  names an inherited member and the filter returns a list of operations, filtering
  that list again with the same excludes returns the same list, with the same
  operations in the same order and the same values.
\<close>

lemma exclusion_idempotent_own_names:
  assumes "excludeOperations excludes operations = Inr operations'"
    and "\<forall>exclude \<in> set excludes. own_names exclude"
  shows "excludeOperations excludes operations' = Inr operations'"
  using assms filterOperations_idem [of excludes operations operations']
  by (auto simp: excludeOperations_def split: if_splits)

lemma test_excludes_own_names: "\<forall>exclude \<in> set test_excludes. own_names exclude"
  unfolding own_names_def names_inherited_member_def by code_simp

lemma test_run_twice:
  "excludeOperations test_excludes test_ops = Inr test_filtered
   \<and> excludeOperations test_excludes test_filtered = Inr test_filtered"
  using exclusion_idempotent_own_names [OF test_run test_excludes_own_names] test_run by simp

end
